theory Spec2Isabelle
  imports Main
begin

section \<open>Machine integers and the collaborators of the examples\<close>

text \<open>
  The counters of the examples are \<^verbatim>\<open>uint64_t\<close>; lengths computed from
  \<^verbatim>\<open>uint32_t\<close> operands are reduced modulo \<open>2 ^ 32\<close> as C does.
\<close>

definition u64 :: "nat \<Rightarrow> nat" where
  "u64 n = n mod 2 ^ 64"

definition u32 :: "nat \<Rightarrow> nat" where
  "u32 n = n mod 2 ^ 32"

text \<open>
  The DMA buffer allocator (\<^verbatim>\<open>spdk_malloc\<close>, \<^verbatim>\<open>spdk_zmalloc\<close>,
  \<^verbatim>\<open>spdk_free\<close>) is a collaborator of the examples, not part of them. It is
  modelled by a heap that hands out fresh addresses, keeps the buffers that are allocated
  and not yet freed, and logs every argument of \<^verbatim>\<open>spdk_free\<close>. Whether an
  allocation succeeds is decided by the environment (the boolean argument).
\<close>

record heap =
  next_buf :: nat
  live_bufs :: "nat list"
  freed_bufs :: "nat list"

definition heap_init :: heap where
  "heap_init = \<lparr>next_buf = 0, live_bufs = [], freed_bufs = []\<rparr>"

definition spdk_zmalloc :: "bool \<Rightarrow> heap \<Rightarrow> nat option \<times> heap" where
  "spdk_zmalloc ok h =
     (if ok
      then (Some (next_buf h),
            h\<lparr>next_buf := Suc (next_buf h), live_bufs := next_buf h # live_bufs h\<rparr>)
      else (None, h))"

definition spdk_free :: "nat \<Rightarrow> heap \<Rightarrow> heap" where
  "spdk_free b h = h\<lparr>live_bufs := remove1 b (live_bufs h), freed_bufs := freed_bufs h @ [b]\<rparr>"

text \<open>
  Calls to the block-device layer that acquire or release a resource, the polls of the
  wait loop and the final report are logged in a trace, in the order the program makes
  them.
\<close>

datatype event =
    BdevOpen
  | GetIoChannel
  | PutIoChannel
  | BdevClose
  | Poll
  | Stderr string
  | Report nat nat

section \<open>bdev\_nvme.c: one read, a wait loop, release\<close>

record bdev_context =
  io_submitted :: nat
  io_completed :: nat

text \<open>
  The state of the program: its context, the allocator, the reads the device layer has
  accepted and not yet completed (their buffers), the number of polls made so far, the
  number of \<^verbatim>\<open>spdk_bdev_free_io\<close> calls, and the trace.
\<close>

record bdev_app =
  ctx :: bdev_context
  mem :: heap
  queued :: "nat list"
  polls :: nat
  free_io_calls :: nat
  trace :: "event list"

text \<open>
  What the environment decides in a run of \<^verbatim>\<open>main\<close>: the results of the
  initialisation calls, of the allocation and of \<^verbatim>\<open>spdk_bdev_read\<close>, and
  for each poll the success flags of the completions the device hands back at that poll
  (never more than are queued).
\<close>

record main_env =
  env_init_rc :: int
  bdev_found :: bool
  open_rc :: int
  channel_ok :: bool
  malloc_ok :: bool
  read_rc :: int
  deliver :: "nat \<Rightarrow> bool list"

definition bdev_io_complete :: "bool \<Rightarrow> bdev_app \<Rightarrow> bdev_app" where
  "bdev_io_complete success s =
     (let s1 = s\<lparr>ctx := (ctx s)\<lparr>io_completed := u64 (io_completed (ctx s) + 1)\<rparr>\<rparr>;
          s2 = (if \<not> success then s1\<lparr>trace := trace s1 @ [Stderr ''I/O failed'']\<rparr> else s1)
      in s2\<lparr>free_io_calls := Suc (free_io_calls s2)\<rparr>)"

definition submit_bdev_io :: "main_env \<Rightarrow> bdev_app \<Rightarrow> bdev_app" where
  "submit_bdev_io env s =
     (case spdk_zmalloc (malloc_ok env) (mem s) of
        (None, h) \<Rightarrow> s\<lparr>mem := h, trace := trace s @ [Stderr ''Failed to allocate buffer'']\<rparr>
      | (Some buf, h) \<Rightarrow>
          (if read_rc env = 0
           then s\<lparr>mem := h, queued := queued s @ [buf],
                  ctx := (ctx s)\<lparr>io_submitted := u64 (io_submitted (ctx s) + 1)\<rparr>\<rparr>
           else s\<lparr>mem := spdk_free buf h,
                  trace := trace s @ [Stderr ''Failed to submit bdev read'']\<rparr>))"

text \<open>
  One poll: the device hands back completions for requests at the head of its queue and
  the callback runs once for each.
\<close>

definition spdk_bdev_poll :: "main_env \<Rightarrow> bdev_app \<Rightarrow> bdev_app" where
  "spdk_bdev_poll env s =
     (let flags = take (length (queued s)) (deliver env (polls s));
          s1 = s\<lparr>queued := drop (length flags) (queued s), polls := Suc (polls s),
                 trace := trace s @ [Poll]\<rparr>
      in fold bdev_io_complete flags s1)"

partial_function (option) wait_loop :: "main_env \<Rightarrow> bdev_app \<Rightarrow> bdev_app option" where
  "wait_loop env s =
     (if io_completed (ctx s) < io_submitted (ctx s)
      then wait_loop env (spdk_bdev_poll env s)
      else Some s)"

definition bdev_app_init :: bdev_app where
  "bdev_app_init =
     \<lparr>ctx = \<lparr>io_submitted = 0, io_completed = 0\<rparr>, mem = heap_init, queued = [],
      polls = 0, free_io_calls = 0, trace = []\<rparr>"

text \<open>The state in which \<^verbatim>\<open>main\<close> reaches its wait loop.\<close>

definition at_wait_loop :: "main_env \<Rightarrow> bdev_app" where
  "at_wait_loop env =
     submit_bdev_io env (bdev_app_init\<lparr>trace := [BdevOpen, GetIoChannel]\<rparr>)"

definition release :: "bdev_app \<Rightarrow> bdev_app" where
  "release s =
     s\<lparr>trace := trace s @
        [Report (io_submitted (ctx s)) (io_completed (ctx s)), PutIoChannel, BdevClose]\<rparr>"

text \<open>
  \<^verbatim>\<open>main\<close> returns its exit status and final state, or nothing when the wait
  loop never ends.
\<close>

definition main :: "main_env \<Rightarrow> (int \<times> bdev_app) option" where
  "main env =
     (if env_init_rc env < 0
        then Some (- 1, bdev_app_init\<lparr>trace := [Stderr ''SPDK env init failed'']\<rparr>)
      else if \<not> bdev_found env
        then Some (- 1, bdev_app_init\<lparr>trace := [Stderr ''NVMe bdev not found'']\<rparr>)
      else if open_rc env \<noteq> 0
        then Some (- 1, bdev_app_init\<lparr>trace := [Stderr ''Failed to open bdev'']\<rparr>)
      else if \<not> channel_ok env
        then Some (- 1, bdev_app_init\<lparr>trace := [BdevOpen, Stderr ''Failed to get I/O channel'']\<rparr>)
      else
        (case wait_loop env (at_wait_loop env) of
           None \<Rightarrow> None
         | Some s \<Rightarrow> Some (0, release s)))"

section \<open>bdev\_reactor\_multi\_threads.c: one reactor, three threads\<close>

definition THREADS_PER_REACTOR :: nat where
  "THREADS_PER_REACTOR = 3"

definition IO_PER_THREAD :: nat where
  "IO_PER_THREAD = 8"

record thread_ctx =
  ch :: bool
  submitted :: nat
  completed :: nat

text \<open>
  An \<^verbatim>\<open>io_task\<close> at address \<open>task_addr\<close>; \<open>tctx\<close> is the index in
  \<^verbatim>\<open>g_ctx\<close> of the thread context the task points to.
\<close>

record io_task =
  task_addr :: nat
  tctx :: nat
  buf :: nat

text \<open>
  The state: the globals of the file, the DMA heap, the \<^verbatim>\<open>calloc\<close>ed task
  records, the tasks the device layer has accepted and whose callback has not yet run,
  and logs of the \<^verbatim>\<open>spdk_bdev_read\<close> calls (offset, length), of the
  \<^verbatim>\<open>spdk_app_stop\<close> calls and of the messages on stderr. \<open>started\<close> and
  \<open>pending\<close> belong to the application framework: whether \<^verbatim>\<open>app_start\<close>
  has been dispatched, and the threads whose \<^verbatim>\<open>thread_work\<close> message has
  been sent and not yet run.
\<close>

record reactor_app =
  g_ctx :: "thread_ctx list"
  g_total_expected :: nat
  g_total_completed :: nat
  dma :: heap
  next_task :: nat
  live_tasks :: "nat list"
  inflight :: "io_task list"
  reads :: "(nat \<times> nat) list"
  bdev_io_freed :: nat
  stops :: "int list"
  errs :: "string list"
  started :: bool
  pending :: "nat list"

text \<open>What the environment decides in one call of \<^verbatim>\<open>submit_one_io\<close>.\<close>

record submit_env =
  calloc_ok :: bool
  zmalloc_ok :: bool
  bdev_read_rc :: int

definition io_complete :: "bool \<Rightarrow> io_task \<Rightarrow> reactor_app \<Rightarrow> reactor_app" where
  "io_complete success task s =
     (let t = tctx task;
          s1 = s\<lparr>g_ctx := (g_ctx s)[t := (g_ctx s ! t)\<lparr>completed := u64 (completed (g_ctx s ! t) + 1)\<rparr>],
                 g_total_completed := u64 (g_total_completed s + 1)\<rparr>;
          s2 = s1\<lparr>bdev_io_freed := Suc (bdev_io_freed s1),
                  dma := spdk_free (buf task) (dma s1),
                  live_tasks := remove1 (task_addr task) (live_tasks s1)\<rparr>
      in if g_total_completed s2 = g_total_expected s2
         then s2\<lparr>stops := stops s2 @ [0]\<rparr>
         else s2)"

definition submit_one_io ::
  "nat \<Rightarrow> submit_env \<Rightarrow> nat \<Rightarrow> nat \<Rightarrow> nat \<Rightarrow> reactor_app \<Rightarrow> reactor_app" where
  "submit_one_io bsz env t lba num_blocks s =
     (if \<not> calloc_ok env then s\<lparr>errs := errs s @ [''calloc io_task failed'']\<rparr>
      else
        let a = next_task s;
            s1 = s\<lparr>next_task := Suc a, live_tasks := a # live_tasks s\<rparr>
        in case spdk_zmalloc (zmalloc_ok env) (dma s1) of
             (None, h) \<Rightarrow>
               s1\<lparr>dma := h, live_tasks := remove1 a (live_tasks s1),
                   errs := errs s1 @ [''spdk_zmalloc failed'']\<rparr>
           | (Some b, h) \<Rightarrow>
               let s2 = s1\<lparr>dma := h,
                           reads := reads s1 @ [(u64 (lba * bsz), u32 (bsz * num_blocks))]\<rparr>
               in if bdev_read_rc env = 0
                  then s2\<lparr>g_ctx := (g_ctx s2)[t := (g_ctx s2 ! t)
                                \<lparr>submitted := u64 (submitted (g_ctx s2 ! t) + 1)\<rparr>],
                          inflight := inflight s2 @ [\<lparr>task_addr = a, tctx = t, buf = b\<rparr>]\<rparr>
                  else s2\<lparr>dma := spdk_free b (dma s2),
                          live_tasks := remove1 a (live_tasks s2),
                          errs := errs s2 @ [''spdk_bdev_read submit failed'']\<rparr>)"

text \<open>
  What the environment decides in one run of \<^verbatim>\<open>thread_work\<close>: whether the
  channel is obtained, the geometry of the device, and the outcome of each submission.
\<close>

record work_env =
  get_channel_ok :: bool
  num_blocks :: nat
  block_size :: nat
  submit_envs :: "nat \<Rightarrow> submit_env"

text \<open>The first \<open>n\<close> iterations of the submission loop of \<^verbatim>\<open>thread_work\<close>.\<close>

fun thread_loop :: "work_env \<Rightarrow> nat \<Rightarrow> nat \<Rightarrow> reactor_app \<Rightarrow> reactor_app" where
  "thread_loop env t 0 s = s"
| "thread_loop env t (Suc i) s =
     submit_one_io (block_size env) (submit_envs env i) t
       (i mod (if num_blocks env \<noteq> 0 then num_blocks env else 1)) 1
       (thread_loop env t i s)"

text \<open>
  \<^verbatim>\<open>thread_work\<close> up to the point where its loop has made \<open>n\<close> iterations;
  the whole function makes \<^verbatim>\<open>IO_PER_THREAD\<close> of them.
\<close>

definition thread_work_upto ::
  "nat \<Rightarrow> work_env \<Rightarrow> nat \<Rightarrow> reactor_app \<Rightarrow> reactor_app" where
  "thread_work_upto n env t s =
     (if \<not> get_channel_ok env then s\<lparr>errs := errs s @ [''get_io_channel failed'']\<rparr>
      else thread_loop env t n (s\<lparr>g_ctx := (g_ctx s)[t := (g_ctx s ! t)\<lparr>ch := True\<rparr>]\<rparr>))"

definition thread_work :: "work_env \<Rightarrow> nat \<Rightarrow> reactor_app \<Rightarrow> reactor_app" where
  "thread_work env t s = thread_work_upto IO_PER_THREAD env t s"

definition app_start :: "int \<Rightarrow> reactor_app \<Rightarrow> reactor_app" where
  "app_start rc s =
     (if rc \<noteq> 0 then s\<lparr>errs := errs s @ [''open bdev failed''], stops := stops s @ [- 1]\<rparr>
      else s\<lparr>g_total_expected := THREADS_PER_REACTOR * IO_PER_THREAD,
             g_total_completed := 0,
             g_ctx := map (\<lambda>c. c\<lparr>submitted := 0, completed := 0\<rparr>) (g_ctx s),
             pending := [0..<THREADS_PER_REACTOR]\<rparr>)"

definition reactor_init :: reactor_app where
  "reactor_init =
     \<lparr>g_ctx = replicate THREADS_PER_REACTOR \<lparr>ch = False, submitted = 0, completed = 0\<rparr>,
      g_total_expected = 0, g_total_completed = 0, dma = heap_init, next_task = 0,
      live_tasks = [], inflight = [], reads = [], bdev_io_freed = 0, stops = [], errs = [],
      started = False, pending = []\<rparr>"

text \<open>
  The executions of the program on its single reactor. Every handler runs to completion:
  \<^verbatim>\<open>app_start\<close> once, \<^verbatim>\<open>thread_work\<close> once for each message sent, in
  any order, and the completion callback once for each accepted request, in any order
  and with either status. The states \<^verbatim>\<open>thread_work\<close> passes through after each
  iteration of its loop are observation points too (the counter is printed there), so
  they are kept as states of their own; no step of the program starts from one of them
  before the loop has ended, which only adds states.
\<close>

inductive reachable :: "reactor_app \<Rightarrow> bool" where
  r_init: "reachable reactor_init"
| r_start: "reachable s \<Longrightarrow> \<not> started s \<Longrightarrow> reachable (app_start rc (s\<lparr>started := True\<rparr>))"
| r_work: "reachable s \<Longrightarrow> t \<in> set (pending s) \<Longrightarrow> n \<le> IO_PER_THREAD \<Longrightarrow>
     reachable (thread_work_upto n env t (s\<lparr>pending := remove1 t (pending s)\<rparr>))"
| r_complete: "reachable s \<Longrightarrow> i < length (inflight s) \<Longrightarrow>
     reachable (io_complete success (inflight s ! i)
                  (s\<lparr>inflight := take i (inflight s) @ drop (Suc i) (inflight s)\<rparr>))"

definition total_submitted :: "reactor_app \<Rightarrow> nat" where
  "total_submitted s = sum_list (map submitted (g_ctx s))"

section \<open>bdev\_multicore\_multi\_threads.c: two reactors, two threads each\<close>

definition MC_THREADS_PER_REACTOR :: nat where
  "MC_THREADS_PER_REACTOR = 2"

definition MC_IO_PER_THREAD :: nat where
  "MC_IO_PER_THREAD = 4"

text \<open>
  The state: the two global counters of the file, the DMA heap, the log of the
  \<^verbatim>\<open>spdk_bdev_read\<close> calls (offset, length), the device's queue of
  accepted reads (the buffer each was given, if the allocation returned one), the status
  flags the device has handed to the callback so far, the number of polls, the
  \<^verbatim>\<open>spdk_app_stop\<close> calls, the resource trace and the threads whose
  \<^verbatim>\<open>thread_work\<close> message has not yet run.
\<close>

record mc_app =
  mc_total_expected :: nat
  mc_total_completed :: nat
  mc_dma :: heap
  mc_reads :: "(nat \<times> nat) list"
  mc_queue :: "nat option list"
  mc_delivered :: "bool list"
  mc_polls :: nat
  mc_stops :: "int list"
  mc_trace :: "event list"
  mc_pending :: "nat list"

text \<open>
  What the environment decides for iteration \<open>i\<close> of the submission loop of thread
  \<open>t\<close>: whether the allocation returns a buffer and the return code of the read.
\<close>

record mc_env =
  mc_zmalloc_ok :: "nat \<Rightarrow> nat \<Rightarrow> bool"
  mc_read_rc :: "nat \<Rightarrow> nat \<Rightarrow> int"

definition mc_io_complete :: "bool \<Rightarrow> mc_app \<Rightarrow> mc_app" where
  "mc_io_complete success s =
     (let s1 = s\<lparr>mc_total_completed := u64 (mc_total_completed s + 1)\<rparr>
      in if mc_total_completed s1 = mc_total_expected s1
         then s1\<lparr>mc_stops := mc_stops s1 @ [0]\<rparr>
         else s1)"

text \<open>
  The first \<open>n\<close> iterations of the loop of \<^verbatim>\<open>submit_io\<close>. Neither the
  allocation nor the return code is checked by the source; a read the device layer
  accepts joins its queue.
\<close>

fun mc_submit_io :: "mc_env \<Rightarrow> nat \<Rightarrow> nat \<Rightarrow> mc_app \<Rightarrow> mc_app" where
  "mc_submit_io env t 0 s = s"
| "mc_submit_io env t (Suc i) s =
     (let s1 = mc_submit_io env t i s;
          (b, h) = spdk_zmalloc (mc_zmalloc_ok env t i) (mc_dma s1);
          s2 = s1\<lparr>mc_dma := h, mc_reads := mc_reads s1 @ [(i, 1)]\<rparr>
      in if mc_read_rc env t i = 0 then s2\<lparr>mc_queue := mc_queue s2 @ [b]\<rparr> else s2)"

definition mc_thread_work :: "mc_env \<Rightarrow> nat \<Rightarrow> mc_app \<Rightarrow> mc_app" where
  "mc_thread_work env t s =
     mc_submit_io env t MC_IO_PER_THREAD
       (s\<lparr>mc_trace := mc_trace s @ [GetIoChannel], mc_pending := remove1 t (mc_pending s)\<rparr>)"

definition mc_app_start :: "int \<Rightarrow> mc_app \<Rightarrow> mc_app" where
  "mc_app_start rc s =
     (if rc \<noteq> 0 then s\<lparr>mc_stops := mc_stops s @ [- 1]\<rparr>
      else s\<lparr>mc_total_expected := MC_THREADS_PER_REACTOR * 2 * MC_IO_PER_THREAD,
             mc_total_completed := 0,
             mc_trace := mc_trace s @ [BdevOpen],
             mc_pending := [0..<2 * MC_THREADS_PER_REACTOR]\<rparr>)"

definition mc_init :: mc_app where
  "mc_init =
     \<lparr>mc_total_expected = 0, mc_total_completed = 0, mc_dma = heap_init, mc_reads = [],
      mc_queue = [],
      mc_delivered = [], mc_polls = 0, mc_stops = [], mc_trace = [], mc_pending = []\<rparr>"

text \<open>
  The device hands one completion to the callback: the request at the head of its queue,
  with the given status. With an empty queue there is nothing to hand back. Here the
  callback runs from its first statement to its last before the next completion is
  handed over: these are the executions of the program in which no two callbacks
  overlap. The executions in which callbacks of the two reactors overlap are those of
  \<open>micro\<close> below.
\<close>

definition mc_deliver :: "bool \<Rightarrow> mc_app \<Rightarrow> mc_app" where
  "mc_deliver success s =
     (case mc_queue s of
        [] \<Rightarrow> s
      | b # q \<Rightarrow> mc_io_complete success
                   (s\<lparr>mc_queue := q, mc_delivered := mc_delivered s @ [success]\<rparr>))"

text \<open>
  One poll iteration hands back a batch of completions, one status flag each, the
  callbacks one after the other.
\<close>

definition mc_poll :: "bool list \<Rightarrow> mc_app \<Rightarrow> mc_app" where
  "mc_poll flags s = fold mc_deliver flags (s\<lparr>mc_polls := Suc (mc_polls s)\<rparr>)"

text \<open>
  The framework polls until \<^verbatim>\<open>spdk_app_stop\<close> has been called; the stop is
  honoured after the poll iteration that called it. The list holds the batches of the
  polls still to come: when it runs out before a stop, the application has not returned.
\<close>

fun mc_run :: "bool list list \<Rightarrow> mc_app \<Rightarrow> mc_app option" where
  "mc_run [] s = (if mc_stops s \<noteq> [] then Some s else None)"
| "mc_run (p # ps) s = (if mc_stops s \<noteq> [] then Some s else mc_run ps (mc_poll p s))"

text \<open>
  \<^verbatim>\<open>main\<close>: the framework runs \<^verbatim>\<open>app_start\<close>, then the messages, then
  polls until stopped; \<^verbatim>\<open>spdk_app_fini\<close> follows and the exit status is 0.
  \<open>mc_main\<close> gives the executions in which the callbacks run one at a time; it is used
  to exhibit runs of the program, not to speak of all of them.
\<close>

definition mc_submitted :: "int \<Rightarrow> mc_env \<Rightarrow> mc_app" where
  "mc_submitted rc env =
     (let s = mc_app_start rc mc_init in fold (mc_thread_work env) (mc_pending s) s)"

definition mc_main :: "int \<Rightarrow> mc_env \<Rightarrow> bool list list \<Rightarrow> (int \<times> mc_app) option" where
  "mc_main rc env ps = map_option (\<lambda>s. (0, s)) (mc_run ps (mc_submitted rc env))"

text \<open>The device test double of Scenario A: every read is accepted.\<close>

definition accept_all :: mc_env where
  "accept_all = \<lparr>mc_zmalloc_ok = (\<lambda>t i. True), mc_read_rc = (\<lambda>t i. 0)\<rparr>"

subsection \<open>The completion callback on two reactors\<close>

text \<open>
  Threads of distinct reactors run the callback in parallel. The statements
  \<^verbatim>\<open>g_total_completed++\<close> and the comparison that follows are plain accesses to
  the shared counter, so a reactor is at one of three points of the callback: not in it,
  having loaded the counter, or having stored the incremented value.
\<close>

datatype pc = Idle | Loaded nat | Stored

text \<open>
  The state seen by the callbacks: the two shared counters, the
  \<^verbatim>\<open>spdk_app_stop\<close> calls, for each reactor the number of completions the
  device still has to hand to its threads, and the point each reactor is at.
\<close>

record conc =
  cg_total_expected :: nat
  cg_total_completed :: nat
  cg_stops :: "int list"
  waiting :: "nat list"
  pcs :: "pc list"

text \<open>
  Reactor \<open>r\<close> executes its next access. From \<open>Idle\<close> it takes one of its
  waiting completions and loads the counter.
\<close>

definition micro :: "nat \<Rightarrow> conc \<Rightarrow> conc" where
  "micro r c =
     (case pcs c ! r of
        Idle \<Rightarrow>
          (if waiting c ! r = 0 then c
           else c\<lparr>waiting := (waiting c)[r := waiting c ! r - 1],
                  pcs := (pcs c)[r := Loaded (cg_total_completed c)]\<rparr>)
      | Loaded v \<Rightarrow> c\<lparr>cg_total_completed := u64 (v + 1), pcs := (pcs c)[r := Stored]\<rparr>
      | Stored \<Rightarrow>
          (if cg_total_completed c = cg_total_expected c
           then c\<lparr>cg_stops := cg_stops c @ [0], pcs := (pcs c)[r := Idle]\<rparr>
           else c\<lparr>pcs := (pcs c)[r := Idle]\<rparr>))"

text \<open>
  Scenario A once every read has been accepted: 16 expected, none completed, and on each
  of the two reactors the 8 completions of its two threads still to come.
\<close>

definition scenario_A_conc :: conc where
  "scenario_A_conc =
     \<lparr>cg_total_expected = MC_THREADS_PER_REACTOR * 2 * MC_IO_PER_THREAD,
      cg_total_completed = 0, cg_stops = [],
      waiting = replicate 2 (MC_THREADS_PER_REACTOR * MC_IO_PER_THREAD),
      pcs = replicate 2 Idle\<rparr>"

section \<open>bdev\_nvme\_multi.c: four reads per reactor\<close>

definition IO_PER_REACTOR :: nat where
  "IO_PER_REACTOR = 4"

definition TEST_IO_SIZE :: nat where
  "TEST_IO_SIZE = 4096"

text \<open>
  The block-device layer is not part of the repository. Its stand-in here is the device
  test double of the specification's Scenario C, with a queue depth limit: it accepts a
  read while fewer than \<open>depth\<close> reads are queued and refuses it otherwise, and it
  logs every call it receives (buffer, offset, length).
\<close>

record device =
  depth :: nat
  dev_queue :: "nat list"
  dev_calls :: "(nat \<times> nat \<times> nat) list"

definition ENOMEM :: int where
  "ENOMEM = 12"

definition spdk_bdev_read :: "nat \<Rightarrow> nat \<Rightarrow> nat \<Rightarrow> device \<Rightarrow> int \<times> device" where
  "spdk_bdev_read b off len d =
     (let d1 = d\<lparr>dev_calls := dev_calls d @ [(b, off, len)]\<rparr>
      in if length (dev_queue d) < depth d
         then (0, d1\<lparr>dev_queue := dev_queue d @ [b]\<rparr>)
         else (- ENOMEM, d1))"

text \<open>
  The \<^verbatim>\<open>reactor_ctx\<close> of this file has the two counters of
  \<^verbatim>\<open>bdev_context\<close>, under the same names.
\<close>

record multi_app =
  rctx :: bdev_context
  rmem :: heap
  dev :: device
  rerrs :: "string list"

text \<open>The first \<open>n\<close> iterations of the loop of \<^verbatim>\<open>submit_io\<close>.\<close>

fun submit_io_loop :: "(nat \<Rightarrow> bool) \<Rightarrow> nat \<Rightarrow> multi_app \<Rightarrow> multi_app" where
  "submit_io_loop ok 0 s = s"
| "submit_io_loop ok (Suc i) s =
     (let s1 = submit_io_loop ok i s in
      case spdk_zmalloc (ok i) (rmem s1) of
        (None, h) \<Rightarrow> s1\<lparr>rmem := h, rerrs := rerrs s1 @ [''Failed to allocate buffer'']\<rparr>
      | (Some b, h) \<Rightarrow>
          (case spdk_bdev_read b (i * TEST_IO_SIZE) TEST_IO_SIZE (dev s1) of
             (rc, d) \<Rightarrow>
               if rc = 0
               then s1\<lparr>rmem := h, dev := d,
                       rctx := (rctx s1)\<lparr>io_submitted := u64 (io_submitted (rctx s1) + 1)\<rparr>\<rparr>
               else s1\<lparr>rmem := spdk_free b h, dev := d,
                       rerrs := rerrs s1 @ [''Failed to submit bdev read'']\<rparr>))"

definition submit_io :: "(nat \<Rightarrow> bool) \<Rightarrow> multi_app \<Rightarrow> multi_app" where
  "submit_io ok s = submit_io_loop ok IO_PER_REACTOR s"

definition multi_init :: "nat \<Rightarrow> multi_app" where
  "multi_init n =
     \<lparr>rctx = \<lparr>io_submitted = 0, io_completed = 0\<rparr>, rmem = heap_init,
      dev = \<lparr>depth = n, dev_queue = [], dev_calls = []\<rparr>, rerrs = []\<rparr>"

section \<open>Auxiliary definitions for the statements\<close>

text \<open>
  The accounting of \<^verbatim>\<open>bdev_nvme.c\<close> while it waits: every submitted request
  is either completed or queued in the device, and nothing has been released yet.
\<close>

definition bdev_acct :: "bdev_app \<Rightarrow> bool" where
  "bdev_acct s \<longleftrightarrow>
     io_submitted (ctx s) = io_completed (ctx s) + length (queued s) \<and>
     io_submitted (ctx s) \<le> 1 \<and>
     PutIoChannel \<notin> set (trace s) \<and> BdevClose \<notin> set (trace s)"

text \<open>Two environments of \<^verbatim>\<open>bdev_nvme.c\<close> used as concrete instances.\<close>

definition alloc_fails :: main_env where
  "alloc_fails =
     \<lparr>env_init_rc = 0, bdev_found = True, open_rc = 0, channel_ok = True,
      malloc_ok = False, read_rc = 0, deliver = (\<lambda>k. [])\<rparr>"

definition completes_at_third_poll :: main_env where
  "completes_at_third_poll =
     \<lparr>env_init_rc = 0, bdev_found = True, open_rc = 0, channel_ok = True,
      malloc_ok = True, read_rc = 0, deliver = (\<lambda>k. if k = 2 then [True] else [])\<rparr>"

text \<open>
  The accounting of \<^verbatim>\<open>bdev_reactor_multi_threads.c\<close>: the requests of a
  thread that are outstanding, and the invariant that ties the counters to them.
\<close>

definition outstanding_of :: "nat \<Rightarrow> reactor_app \<Rightarrow> nat" where
  "outstanding_of t s = length (filter (\<lambda>k. tctx k = t) (inflight s))"

definition acct :: "reactor_app \<Rightarrow> bool" where
  "acct s \<longleftrightarrow>
     length (g_ctx s) = THREADS_PER_REACTOR \<and>
     (\<forall>u < THREADS_PER_REACTOR.
        submitted (g_ctx s ! u) = completed (g_ctx s ! u) + outstanding_of u s) \<and>
     (\<forall>k \<in> set (inflight s). tctx k < THREADS_PER_REACTOR) \<and>
     g_total_completed s = sum_list (map completed (g_ctx s))"

definition reactor_inv :: "reactor_app \<Rightarrow> bool" where
  "reactor_inv s \<longleftrightarrow>
     acct s \<and>
     (\<forall>u < THREADS_PER_REACTOR. submitted (g_ctx s ! u) \<le> IO_PER_THREAD) \<and>
     set (pending s) \<subseteq> {..<THREADS_PER_REACTOR} \<and> distinct (pending s) \<and>
     (\<forall>u \<in> set (pending s). submitted (g_ctx s ! u) = 0) \<and>
     (g_total_expected s = THREADS_PER_REACTOR * IO_PER_THREAD \<or>
      g_total_expected s = 0 \<and> pending s = [] \<and>
        (\<forall>u < THREADS_PER_REACTOR. submitted (g_ctx s ! u) = 0)) \<and>
     (\<not> started s \<longrightarrow> inflight s = [] \<and> pending s = [])"

text \<open>Concrete runs of \<^verbatim>\<open>bdev_reactor_multi_threads.c\<close> and outcomes of one submission.\<close>

definition accepting :: work_env where
  "accepting = \<lparr>get_channel_ok = True, num_blocks = 1000, block_size = 4096,
     submit_envs = (\<lambda>i. \<lparr>calloc_ok = True, zmalloc_ok = True, bdev_read_rc = 0\<rparr>)\<rparr>"

definition run_started :: reactor_app where
  "run_started = app_start 0 (reactor_init\<lparr>started := True\<rparr>)"

definition run_submitted :: reactor_app where
  "run_submitted =
     thread_work accepting 0 (run_started\<lparr>pending := remove1 0 (pending run_started)\<rparr>)"

definition run_completed :: reactor_app where
  "run_completed =
     io_complete True (inflight run_submitted ! 0)
       (run_submitted\<lparr>inflight := take 0 (inflight run_submitted) @
                                     drop (Suc 0) (inflight run_submitted)\<rparr>)"

definition submit_failed :: "submit_env \<Rightarrow> bool" where
  "submit_failed env \<longleftrightarrow> \<not> calloc_ok env \<or> \<not> zmalloc_ok env \<or> bdev_read_rc env \<noteq> 0"

definition refused :: submit_env where
  "refused = \<lparr>calloc_ok = True, zmalloc_ok = True, bdev_read_rc = - 22\<rparr>"

definition accepted :: submit_env where
  "accepted = \<lparr>calloc_ok = True, zmalloc_ok = True, bdev_read_rc = 0\<rparr>"

text \<open>Scenario A and states derived from it.\<close>

definition scenario_A_submitted :: mc_app where
  "scenario_A_submitted = mc_submitted 0 accept_all"

definition scenario_A_exit :: "(int \<times> mc_app) option" where
  "scenario_A_exit = mc_main 0 accept_all (replicate 16 [True])"

text \<open>The run of \<^verbatim>\<open>submit_io\<close> against a device of queue depth 3.\<close>

definition depth3_run :: multi_app where
  "depth3_run = submit_io (\<lambda>i. True) (multi_init 3)"

text \<open>
  Ownership of the DMA buffers in \<^verbatim>\<open>bdev_reactor_multi_threads.c\<close>: the
  buffers still allocated are those of the outstanding requests, one each, no buffer
  has been freed twice or is both allocated and freed, and every address handed out so
  far is one or the other.
\<close>

definition owned :: "heap \<Rightarrow> io_task list \<Rightarrow> bool" where
  "owned h ks \<longleftrightarrow>
     distinct (map buf ks) \<and>
     buf ` set ks = set (live_bufs h) \<and>
     distinct (live_bufs h) \<and>
     distinct (freed_bufs h) \<and>
     set (live_bufs h) \<inter> set (freed_bufs h) = {} \<and>
     set (live_bufs h) \<union> set (freed_bufs h) = {..<next_buf h}"

definition heap_ok :: "reactor_app \<Rightarrow> bool" where
  "heap_ok s \<longleftrightarrow> owned (dma s) (inflight s)"

section \<open>Verification: bdev\_nvme.c\<close>

lemma u64_small: "n < 2 ^ 64 \<Longrightarrow> u64 n = n"
  by (simp add: u64_def)

lemma wait_loop_done:
  "\<not> io_completed (ctx s) < io_submitted (ctx s) \<Longrightarrow> wait_loop env s = Some s"
  by (subst wait_loop.simps) simp

text \<open>
  An invariant of the loop body holds when the loop returns, together with the negation
  of the loop condition.
\<close>

lemma wait_loop_rule:
  "wait_loop env s = Some s' \<Longrightarrow>
   (\<forall>s. P env s \<longrightarrow> io_completed (ctx s) < io_submitted (ctx s) \<longrightarrow>
        P env (spdk_bdev_poll env s)) \<longrightarrow>
   P env s \<longrightarrow> P env s' \<and> \<not> io_completed (ctx s') < io_submitted (ctx s')"
  by (rule wait_loop.raw_induct
      [where P = "\<lambda>env s s'.
         (\<forall>s. P env s \<longrightarrow> io_completed (ctx s) < io_submitted (ctx s) \<longrightarrow>
              P env (spdk_bdev_poll env s)) \<longrightarrow>
         P env s \<longrightarrow> P env s' \<and> \<not> io_completed (ctx s') < io_submitted (ctx s')"])
     (auto split: if_splits)

lemma fold_bdev_io_complete:
  "io_completed (ctx s) + length fl < 2 ^ 64 \<Longrightarrow>
   io_completed (ctx (fold bdev_io_complete fl s)) = io_completed (ctx s) + length fl \<and>
   io_submitted (ctx (fold bdev_io_complete fl s)) = io_submitted (ctx s) \<and>
   queued (fold bdev_io_complete fl s) = queued s \<and>
   mem (fold bdev_io_complete fl s) = mem s \<and>
   polls (fold bdev_io_complete fl s) = polls s \<and>
   set (trace (fold bdev_io_complete fl s)) \<subseteq> set (trace s) \<union> {Stderr ''I/O failed''}"
proof (induction fl arbitrary: s)
  case Nil
  then show ?case by auto
next
  case (Cons f fl)
  have "io_completed (ctx (bdev_io_complete f s)) = io_completed (ctx s) + 1"
    using Cons.prems by (simp add: bdev_io_complete_def Let_def u64_small)
  moreover have "io_submitted (ctx (bdev_io_complete f s)) = io_submitted (ctx s)"
    "queued (bdev_io_complete f s) = queued s" "mem (bdev_io_complete f s) = mem s"
    "polls (bdev_io_complete f s) = polls s"
    "set (trace (bdev_io_complete f s)) \<subseteq> set (trace s) \<union> {Stderr ''I/O failed''}"
    by (auto simp add: bdev_io_complete_def Let_def)
  ultimately show ?case using Cons.IH [of "bdev_io_complete f s"] Cons.prems
    by auto
qed

lemma poll_acct: "bdev_acct s \<Longrightarrow> bdev_acct (spdk_bdev_poll env s)"
proof -
  assume a: "bdev_acct s"
  define fl where "fl = take (length (queued s)) (deliver env (polls s))"
  define s1 where "s1 = s\<lparr>queued := drop (length fl) (queued s), polls := Suc (polls s),
                 trace := trace s @ [Poll]\<rparr>"
  have len: "length fl \<le> length (queued s)" by (simp add: fl_def)
  have p: "spdk_bdev_poll env s = fold bdev_io_complete fl s1"
    by (simp add: spdk_bdev_poll_def Let_def fl_def s1_def)
  have small: "io_completed (ctx s1) + length fl < 2 ^ 64"
    using a len by (simp add: bdev_acct_def s1_def)
  from fold_bdev_io_complete [OF small] a len show ?thesis
    unfolding p bdev_acct_def by (auto simp: s1_def)
qed

lemma at_wait_loop_acct: "bdev_acct (at_wait_loop env)"
  by (auto simp: bdev_acct_def at_wait_loop_def submit_bdev_io_def spdk_zmalloc_def
      bdev_app_init_def heap_init_def u64_def spdk_free_def)

lemma wait_loop_acct:
  assumes "wait_loop env (at_wait_loop env) = Some s"
  shows "bdev_acct s \<and> \<not> io_completed (ctx s) < io_submitted (ctx s)"
  using wait_loop_rule [OF assms, where P = "\<lambda>e. bdev_acct"] poll_acct at_wait_loop_acct
  by blast

lemma main_third_poll:
  "\<exists>s. main completes_at_third_poll = Some (0, s) \<and> polls s = 3 \<and>
       PutIoChannel \<in> set (trace s)"
  apply (simp add: main_def completes_at_third_poll_def at_wait_loop_def submit_bdev_io_def
      spdk_zmalloc_def bdev_app_init_def heap_init_def u64_def)
  apply (subst wait_loop.simps,
      simp add: spdk_bdev_poll_def Let_def bdev_io_complete_def u64_def)+
  apply (simp add: release_def)
  done

text \<open>
  C10. A run of \<^verbatim>\<open>bdev_nvme.c\<close> that passes initialisation and reaches the wait
  loop with a submitted counter of 0 never polls, reports submitted=0 completed=0,
  releases the I/O channel, then closes the descriptor, and exits with status 0.
\<close>

theorem zero_submissions_clean_shutdown:
  assumes "0 \<le> env_init_rc env" and "bdev_found env" and "open_rc env = 0"
    and "channel_ok env"
    and "io_submitted (ctx (at_wait_loop env)) = 0"
  shows "\<exists>s. main env = Some (0, s) \<and> polls s = 0 \<and> Poll \<notin> set (trace s) \<and>
             io_submitted (ctx s) = 0 \<and> io_completed (ctx s) = 0 \<and>
             (\<exists>pre. trace s = pre @ [Report 0 0, PutIoChannel, BdevClose] \<and>
                    PutIoChannel \<notin> set pre \<and> BdevClose \<notin> set pre)"
proof -
  let ?s = "at_wait_loop env"
  have w: "wait_loop env ?s = Some ?s"
    using assms(5) by (simp add: wait_loop_done)
  have m: "main env = Some (0, release ?s)"
    using assms(1-4) w by (simp add: main_def)
  have c: "io_completed (ctx ?s) = 0" "polls ?s = 0" "Poll \<notin> set (trace ?s)"
    "PutIoChannel \<notin> set (trace ?s)" "BdevClose \<notin> set (trace ?s)"
    by (auto simp: at_wait_loop_def submit_bdev_io_def spdk_zmalloc_def bdev_app_init_def
        split: prod.splits option.splits)
  show ?thesis
    using m c assms(5) by (auto simp: release_def)
qed

theorem zero_submissions_clean_shutdown_witness:
  "\<exists>s. main alloc_fails = Some (0, s) \<and> polls s = 0 \<and> Poll \<notin> set (trace s) \<and>
       io_submitted (ctx s) = 0 \<and> io_completed (ctx s) = 0 \<and>
       (\<exists>pre. trace s = pre @ [Report 0 0, PutIoChannel, BdevClose] \<and>
              PutIoChannel \<notin> set pre \<and> BdevClose \<notin> set pre)"
proof -
  have "io_submitted (ctx (at_wait_loop alloc_fails)) = 0"
    by (simp add: at_wait_loop_def submit_bdev_io_def spdk_zmalloc_def bdev_app_init_def
        alloc_fails_def)
  then show ?thesis
    using zero_submissions_clean_shutdown [of alloc_fails] by (simp add: alloc_fails_def)
qed

section \<open>Verification: bdev\_reactor\_multi\_threads.c\<close>

lemma map_update_same: "(\<And>x. f (g x) = f x) \<Longrightarrow> map f (xs[t := g (xs ! t)]) = map f xs"
  by (induction xs arbitrary: t) (auto split: nat.splits)

lemma nth_update_same:
  "(\<And>x. f (g x) = f x) \<Longrightarrow> f (xs[t := g (xs ! t)] ! u) = f (xs ! u)"
  by (cases "t < length xs") (auto simp: nth_list_update list_update_beyond)

lemma sum_list_map_update:
  "t < length xs \<Longrightarrow> sum_list (map f (xs[t := x])) + f (xs ! t) = sum_list (map f xs) + (f x :: nat)"
  by (induction xs arbitrary: t) (auto split: nat.splits)

lemma submit_one_io_frame:
  "g_total_expected (submit_one_io bsz env t lba nb s) = g_total_expected s \<and>
   g_total_completed (submit_one_io bsz env t lba nb s) = g_total_completed s \<and>
   pending (submit_one_io bsz env t lba nb s) = pending s \<and>
   started (submit_one_io bsz env t lba nb s) = started s \<and>
   stops (submit_one_io bsz env t lba nb s) = stops s \<and>
   length (g_ctx (submit_one_io bsz env t lba nb s)) = length (g_ctx s) \<and>
   map completed (g_ctx (submit_one_io bsz env t lba nb s)) = map completed (g_ctx s) \<and>
   (\<forall>u. u \<noteq> t \<longrightarrow> g_ctx (submit_one_io bsz env t lba nb s) ! u = g_ctx s ! u)"
  by (simp add: submit_one_io_def Let_def spdk_zmalloc_def map_update_same split: prod.splits option.splits)

lemma submit_one_io_submitted:
  "t < length (g_ctx s) \<Longrightarrow>
   submitted (g_ctx (submit_one_io bsz env t lba nb s) ! t) \<le> submitted (g_ctx s ! t) + 1"
  by (simp add: submit_one_io_def Let_def spdk_zmalloc_def u64_def split: prod.splits option.splits)

lemma submit_one_io_acct:
  assumes "acct s" and "t < THREADS_PER_REACTOR" and "submitted (g_ctx s ! t) + 1 < 2 ^ 64"
  shows "acct (submit_one_io bsz env t lba nb s)"
  using assms
  by (auto simp: acct_def submit_one_io_def Let_def spdk_zmalloc_def u64_small outstanding_of_def
      map_update_same nth_list_update)

lemma thread_loop_frame:
  "g_total_expected (thread_loop env t n s) = g_total_expected s \<and>
   g_total_completed (thread_loop env t n s) = g_total_completed s \<and>
   pending (thread_loop env t n s) = pending s \<and>
   started (thread_loop env t n s) = started s \<and>
   stops (thread_loop env t n s) = stops s \<and>
   length (g_ctx (thread_loop env t n s)) = length (g_ctx s) \<and>
   map completed (g_ctx (thread_loop env t n s)) = map completed (g_ctx s) \<and>
   (\<forall>u. u \<noteq> t \<longrightarrow> g_ctx (thread_loop env t n s) ! u = g_ctx s ! u)"
proof (induction n)
  case 0
  then show ?case by simp
next
  case (Suc n)
  let ?s = "thread_loop env t n s"
  have e: "thread_loop env t (Suc n) s =
     submit_one_io (block_size env) (submit_envs env n) t
       (n mod (if num_blocks env \<noteq> 0 then num_blocks env else 1)) 1 ?s"
    by simp
  show ?case
    unfolding e using Suc submit_one_io_frame [of "block_size env" "submit_envs env n" t
        "n mod (if num_blocks env \<noteq> 0 then num_blocks env else 1)" 1 ?s]
    by metis
qed

lemma thread_loop_submitted:
  "t < length (g_ctx s) \<Longrightarrow>
   submitted (g_ctx (thread_loop env t n s) ! t) \<le> submitted (g_ctx s ! t) + n"
proof (induction n)
  case 0
  then show ?case by simp
next
  case (Suc n)
  let ?s = "thread_loop env t n s"
  have e: "thread_loop env t (Suc n) s =
     submit_one_io (block_size env) (submit_envs env n) t
       (n mod (if num_blocks env \<noteq> 0 then num_blocks env else 1)) 1 ?s"
    by simp
  have "t < length (g_ctx ?s)"
    using Suc.prems thread_loop_frame [of env t n s] by simp
  from submit_one_io_submitted [OF this]
  have "submitted (g_ctx (thread_loop env t (Suc n) s) ! t) \<le> submitted (g_ctx ?s ! t) + 1"
    unfolding e .
  moreover have "submitted (g_ctx ?s ! t) \<le> submitted (g_ctx s ! t) + n"
    using Suc by blast
  ultimately show ?case by linarith
qed

lemma thread_loop_acct:
  assumes "acct s" and "t < THREADS_PER_REACTOR" and "submitted (g_ctx s ! t) + n < 2 ^ 64"
  shows "acct (thread_loop env t n s)"
  using assms
proof (induction n)
  case 0
  then show ?case by simp
next
  case (Suc n)
  let ?s = "thread_loop env t n s"
  have e: "thread_loop env t (Suc n) s =
     submit_one_io (block_size env) (submit_envs env n) t
       (n mod (if num_blocks env \<noteq> 0 then num_blocks env else 1)) 1 ?s"
    by simp
  from Suc have a: "acct ?s" by simp
  have "t < length (g_ctx s)" using Suc.prems by (simp add: acct_def)
  from thread_loop_submitted [OF this, of env n] Suc.prems(3)
  have "submitted (g_ctx ?s ! t) + 1 < 2 ^ 64" by linarith
  from submit_one_io_acct [OF a Suc.prems(2) this] show ?case unfolding e .
qed

lemma sum_list_bounded:
  "(\<forall>u < length xs. f (xs ! u) \<le> (b::nat)) \<Longrightarrow> sum_list (map f xs) \<le> length xs * b"
proof (induction xs)
  case Nil
  then show ?case by simp
next
  case (Cons x xs)
  have "f x \<le> b" using Cons.prems by (metis length_greater_0_conv list.distinct(1) nth_Cons_0)
  moreover have "\<forall>u < length xs. f (xs ! u) \<le> b" using Cons.prems by fastforce
  ultimately show ?case using Cons.IH by simp
qed

lemma sum_list_mono_nth:
  "(\<forall>u < length xs. f (xs ! u) \<le> (g (xs ! u) :: nat)) \<Longrightarrow> sum_list (map f xs) \<le> sum_list (map g xs)"
proof (induction xs)
  case Nil
  then show ?case by simp
next
  case (Cons x xs)
  have "f x \<le> g x" using Cons.prems by (metis length_greater_0_conv list.distinct(1) nth_Cons_0)
  moreover have "\<forall>u < length xs. f (xs ! u) \<le> g (xs ! u)" using Cons.prems by fastforce
  ultimately show ?case using Cons.IH by simp
qed

lemma filter_remove_nth:
  "i < length xs \<Longrightarrow>
   length (filter P (take i xs @ drop (Suc i) xs)) + (if P (xs ! i) then 1 else 0) =
   length (filter P xs)"
proof -
  assume "i < length xs"
  then have "xs = take i xs @ xs ! i # drop (Suc i) xs" by (rule id_take_nth_drop)
  then have "length (filter P xs) = length (filter P (take i xs @ xs ! i # drop (Suc i) xs))"
    by simp
  then show ?thesis by simp
qed

lemma reactor_inv_init: "reactor_inv reactor_init"
  by (simp add: reactor_inv_def acct_def reactor_init_def outstanding_of_def THREADS_PER_REACTOR_def)

lemma acct_cong:
  "acct s \<Longrightarrow> g_ctx s' = g_ctx s \<Longrightarrow> inflight s' = inflight s \<Longrightarrow>
   g_total_completed s' = g_total_completed s \<Longrightarrow> acct s'"
  by (simp add: acct_def outstanding_of_def)

lemma reactor_invI:
  "acct s \<Longrightarrow>
   (\<And>u. u < THREADS_PER_REACTOR \<Longrightarrow> submitted (g_ctx s ! u) \<le> IO_PER_THREAD) \<Longrightarrow>
   set (pending s) \<subseteq> {..<THREADS_PER_REACTOR} \<Longrightarrow> distinct (pending s) \<Longrightarrow>
   (\<And>u. u \<in> set (pending s) \<Longrightarrow> submitted (g_ctx s ! u) = 0) \<Longrightarrow>
   (g_total_expected s = THREADS_PER_REACTOR * IO_PER_THREAD \<or>
      g_total_expected s = 0 \<and> pending s = [] \<and>
        (\<forall>u < THREADS_PER_REACTOR. submitted (g_ctx s ! u) = 0)) \<Longrightarrow>
   (\<not> started s \<Longrightarrow> inflight s = [] \<and> pending s = []) \<Longrightarrow>
   reactor_inv s"
  unfolding reactor_inv_def by blast

lemma reactor_invD:
  assumes "reactor_inv s"
  shows "acct s"
    and "\<And>u. u < THREADS_PER_REACTOR \<Longrightarrow> submitted (g_ctx s ! u) \<le> IO_PER_THREAD"
    and "set (pending s) \<subseteq> {..<THREADS_PER_REACTOR}" and "distinct (pending s)"
    and "\<And>u. u \<in> set (pending s) \<Longrightarrow> submitted (g_ctx s ! u) = 0"
    and "g_total_expected s = THREADS_PER_REACTOR * IO_PER_THREAD \<or>
      g_total_expected s = 0 \<and> pending s = [] \<and>
        (\<forall>u < THREADS_PER_REACTOR. submitted (g_ctx s ! u) = 0)"
    and "\<not> started s \<longrightarrow> inflight s = [] \<and> pending s = []"
  using assms unfolding reactor_inv_def by blast+

lemma reactor_inv_start:
  assumes inv: "reactor_inv s" and ns: "\<not> started s"
  shows "reactor_inv (app_start rc (s\<lparr>started := True\<rparr>))"
proof (cases "rc = 0")
  case True
  note d = reactor_invD [OF inv]
  have z: "sum_list (map completed (map (\<lambda>c. c\<lparr>submitted := 0, completed := 0\<rparr>) xs)) = 0" for xs
    by (induction xs) simp_all
  let ?s = "app_start rc (s\<lparr>started := True\<rparr>)"
  have e: "?s = s\<lparr>started := True, g_total_expected := THREADS_PER_REACTOR * IO_PER_THREAD,
             g_total_completed := 0,
             g_ctx := map (\<lambda>c. c\<lparr>submitted := 0, completed := 0\<rparr>) (g_ctx s),
             pending := [0..<THREADS_PER_REACTOR]\<rparr>"
    using True by (simp add: app_start_def)
  have len: "length (g_ctx s) = THREADS_PER_REACTOR" using d(1) by (simp add: acct_def)
  have inf: "inflight s = []" using d(7) ns by simp
  show ?thesis
  proof (rule reactor_invI)
    show "acct ?s" unfolding e using len inf by (simp add: acct_def outstanding_of_def z)
    show "submitted (g_ctx ?s ! u) \<le> IO_PER_THREAD" if "u < THREADS_PER_REACTOR" for u
      unfolding e using that len by simp
    show "set (pending ?s) \<subseteq> {..<THREADS_PER_REACTOR}" unfolding e by auto
    show "distinct (pending ?s)" unfolding e by simp
    show "submitted (g_ctx ?s ! u) = 0" if "u \<in> set (pending ?s)" for u
      using that len unfolding e by simp
    show "g_total_expected ?s = THREADS_PER_REACTOR * IO_PER_THREAD \<or>
      g_total_expected ?s = 0 \<and> pending ?s = [] \<and>
        (\<forall>u < THREADS_PER_REACTOR. submitted (g_ctx ?s ! u) = 0)"
      unfolding e by simp
    show "inflight ?s = [] \<and> pending ?s = []" if "\<not> started ?s"
      using that unfolding e by simp
  qed
next
  case False
  note d = reactor_invD [OF inv]
  let ?s = "app_start rc (s\<lparr>started := True\<rparr>)"
  have e: "?s = s\<lparr>started := True, errs := errs s @ [''open bdev failed''],
      stops := stops s @ [- 1]\<rparr>"
    using False by (simp add: app_start_def)
  show ?thesis
  proof (rule reactor_invI)
    show "acct ?s" unfolding e by (rule acct_cong [OF d(1)]) simp_all
    show "submitted (g_ctx ?s ! u) \<le> IO_PER_THREAD" if "u < THREADS_PER_REACTOR" for u
      unfolding e using d(2) [OF that] by simp
    show "set (pending ?s) \<subseteq> {..<THREADS_PER_REACTOR}" unfolding e using d(3) by simp
    show "distinct (pending ?s)" unfolding e using d(4) by simp
    show "submitted (g_ctx ?s ! u) = 0" if "u \<in> set (pending ?s)" for u
      using that d(5) unfolding e by simp
    show "g_total_expected ?s = THREADS_PER_REACTOR * IO_PER_THREAD \<or>
      g_total_expected ?s = 0 \<and> pending ?s = [] \<and>
        (\<forall>u < THREADS_PER_REACTOR. submitted (g_ctx ?s ! u) = 0)"
      unfolding e using d(6) by simp
    show "inflight ?s = [] \<and> pending ?s = []" if "\<not> started ?s"
      using that unfolding e by simp
  qed
qed

lemma reactor_inv_work:
  assumes inv: "reactor_inv s" and t: "t \<in> set (pending s)" and n: "n \<le> IO_PER_THREAD"
  shows "reactor_inv (thread_work_upto n env t (s\<lparr>pending := remove1 t (pending s)\<rparr>))"
proof -
  note d = reactor_invD [OF inv]
  from d(3) t have tl: "t < THREADS_PER_REACTOR" by auto
  from d(5) t have t0: "submitted (g_ctx s ! t) = 0" by simp
  from d(7) t have st: "started s" by (cases "started s") auto
  from d(6) t have ex: "g_total_expected s = THREADS_PER_REACTOR * IO_PER_THREAD" by auto
  have len: "length (g_ctx s) = THREADS_PER_REACTOR" using d(1) by (simp add: acct_def)
  define s0 where "s0 = s\<lparr>pending := remove1 t (pending s)\<rparr>"
  define s1 where "s1 = s0\<lparr>g_ctx := (g_ctx s0)[t := (g_ctx s0 ! t)\<lparr>ch := True\<rparr>]\<rparr>"
  define s2 where "s2 = thread_work_upto n env t s0"
  have a0: "acct s0" by (rule acct_cong [OF d(1)]) (simp_all add: s0_def)
  have sub1: "submitted (g_ctx s1 ! u) = submitted (g_ctx s ! u)" for u
    by (simp add: s1_def s0_def nth_update_same)
  have com1: "completed (g_ctx s1 ! u) = completed (g_ctx s ! u)" for u
    by (simp add: s1_def s0_def nth_update_same)
  have a1: "acct s1"
    unfolding acct_def
  proof (intro conjI allI impI ballI)
    show "length (g_ctx s1) = THREADS_PER_REACTOR" using len by (simp add: s1_def s0_def)
    show "submitted (g_ctx s1 ! u) = completed (g_ctx s1 ! u) + outstanding_of u s1"
      if "u < THREADS_PER_REACTOR" for u
      using d(1) that unfolding sub1 com1 by (simp add: acct_def outstanding_of_def s1_def s0_def)
    show "tctx k < THREADS_PER_REACTOR" if "k \<in> set (inflight s1)" for k
      using d(1) that by (simp add: acct_def s1_def s0_def)
    show "g_total_completed s1 = sum_list (map completed (g_ctx s1))"
      using d(1) by (simp add: acct_def s1_def s0_def map_update_same)
  qed
  have tw: "s2 = (if \<not> get_channel_ok env then s0\<lparr>errs := errs s0 @ [''get_io_channel failed'']\<rparr>
      else thread_loop env t n s1)"
    by (simp add: s2_def thread_work_upto_def s1_def)
  have "n \<le> 8" using n by (simp add: IO_PER_THREAD_def)
  then have small: "submitted (g_ctx s1 ! t) + n < 2 ^ 64"
    by (simp add: sub1 t0)
  have "acct (s0\<lparr>errs := errs s0 @ [''get_io_channel failed'']\<rparr>)"
    by (rule acct_cong [OF a0]) simp_all
  then have a2: "acct s2"
    unfolding tw using thread_loop_acct [OF a1 tl small] by simp
  note fr = thread_loop_frame [of env t n s1]
  have p2: "pending s2 = remove1 t (pending s)"
    unfolding tw using fr by (simp add: s1_def s0_def)
  have e2: "g_total_expected s2 = g_total_expected s"
    unfolding tw using fr by (simp add: s1_def s0_def)
  have st2: "started s2 = started s"
    unfolding tw using fr by (simp add: s1_def s0_def)
  have others: "submitted (g_ctx s2 ! u) = submitted (g_ctx s ! u)" if "u \<noteq> t" for u
    unfolding tw using fr that sub1 [of u] by (simp add: s0_def)
  have "t < length (g_ctx s1)" using len tl by (simp add: s1_def s0_def)
  from thread_loop_submitted [OF this, of env n]
  have "submitted (g_ctx s2 ! t) \<le> n"
    unfolding tw by (simp add: sub1 t0 s0_def)
  with n have bt: "submitted (g_ctx s2 ! t) \<le> IO_PER_THREAD"
    by linarith
  show ?thesis
    unfolding s0_def [symmetric] s2_def [symmetric]
  proof (rule reactor_invI)
    show "acct s2" by (rule a2)
    show "submitted (g_ctx s2 ! u) \<le> IO_PER_THREAD" if "u < THREADS_PER_REACTOR" for u
      using bt others [of u] d(2) [OF that] by (cases "u = t") simp_all
    show "set (pending s2) \<subseteq> {..<THREADS_PER_REACTOR}"
      unfolding p2 using d(3) set_remove1_subset [of t "pending s"] by blast
    show "distinct (pending s2)" unfolding p2 using d(4) by simp
    show "submitted (g_ctx s2 ! u) = 0" if "u \<in> set (pending s2)" for u
    proof -
      from that d(4) have "u \<noteq> t" "u \<in> set (pending s)" unfolding p2 by auto
      then show ?thesis using others d(5) by simp
    qed
    show "g_total_expected s2 = THREADS_PER_REACTOR * IO_PER_THREAD \<or>
      g_total_expected s2 = 0 \<and> pending s2 = [] \<and>
        (\<forall>u < THREADS_PER_REACTOR. submitted (g_ctx s2 ! u) = 0)"
      using ex e2 by simp
    show "inflight s2 = [] \<and> pending s2 = []" if "\<not> started s2"
      using that st st2 by simp
  qed
qed

lemma io_complete_fields:
  "g_ctx (io_complete ok k s) =
     (g_ctx s)[tctx k := (g_ctx s ! tctx k)\<lparr>completed := u64 (completed (g_ctx s ! tctx k) + 1)\<rparr>]"
  "g_total_completed (io_complete ok k s) = u64 (g_total_completed s + 1)"
  "inflight (io_complete ok k s) = inflight s"
  "pending (io_complete ok k s) = pending s"
  "g_total_expected (io_complete ok k s) = g_total_expected s"
  "started (io_complete ok k s) = started s"
  by (simp_all add: io_complete_def Let_def)

lemma acct_completed_le:
  "acct s \<Longrightarrow> u < THREADS_PER_REACTOR \<Longrightarrow> completed (g_ctx s ! u) \<le> submitted (g_ctx s ! u)"
  by (simp add: acct_def)

lemma reactor_inv_totals:
  assumes "reactor_inv s"
  shows "g_total_completed s \<le> total_submitted s \<and> total_submitted s \<le> g_total_expected s"
proof -
  note d = reactor_invD [OF assms]
  have len: "length (g_ctx s) = THREADS_PER_REACTOR" using d(1) by (simp add: acct_def)
  have "sum_list (map completed (g_ctx s)) \<le> sum_list (map submitted (g_ctx s))"
    by (rule sum_list_mono_nth) (use d(1) len in \<open>simp add: acct_def\<close>)
  then have 1: "g_total_completed s \<le> total_submitted s"
    using d(1) by (simp add: acct_def total_submitted_def)
  from d(6) have 2: "total_submitted s \<le> g_total_expected s"
  proof
    assume e: "g_total_expected s = THREADS_PER_REACTOR * IO_PER_THREAD"
    have "sum_list (map submitted (g_ctx s)) \<le> length (g_ctx s) * IO_PER_THREAD"
      by (rule sum_list_bounded) (use d(2) len in simp)
    then show ?thesis by (simp add: total_submitted_def e len)
  next
    assume z: "g_total_expected s = 0 \<and> pending s = [] \<and>
        (\<forall>u < THREADS_PER_REACTOR. submitted (g_ctx s ! u) = 0)"
    have "sum_list (map submitted (g_ctx s)) \<le> length (g_ctx s) * 0"
      by (rule sum_list_bounded) (use z len in simp)
    then have "total_submitted s = 0"
      unfolding total_submitted_def by (simp only: mult_0_right le_zero_eq)
    then show ?thesis by simp
  qed
  from 1 2 show ?thesis ..
qed

lemma reactor_inv_complete:
  assumes inv: "reactor_inv s" and i: "i < length (inflight s)"
  shows "reactor_inv (io_complete success (inflight s ! i)
                  (s\<lparr>inflight := take i (inflight s) @ drop (Suc i) (inflight s)\<rparr>))"
proof -
  note d = reactor_invD [OF inv]
  define k where "k = inflight s ! i"
  define t where "t = tctx k"
  define s0 where "s0 = s\<lparr>inflight := take i (inflight s) @ drop (Suc i) (inflight s)\<rparr>"
  define s' where "s' = io_complete success k s0"
  have len: "length (g_ctx s) = THREADS_PER_REACTOR" using d(1) by (simp add: acct_def)
  have kin: "k \<in> set (inflight s)" using i by (simp add: k_def)
  then have tl: "t < THREADS_PER_REACTOR" using d(1) by (simp add: acct_def t_def)
  have out: "outstanding_of u s0 + (if u = t then 1 else 0) = outstanding_of u s" for u
    using filter_remove_nth [OF i, of "\<lambda>k. tctx k = u"]
    by (auto simp: outstanding_of_def s0_def t_def k_def)
  have eq: "submitted (g_ctx s ! u) = completed (g_ctx s ! u) + outstanding_of u s"
    if "u < THREADS_PER_REACTOR" for u
    using d(1) that by (simp add: acct_def)
  have ct: "completed (g_ctx s ! t) + 1 \<le> submitted (g_ctx s ! t)"
    using eq [OF tl] out [of t] by simp
  then have ct_small: "completed (g_ctx s ! t) + 1 < 2 ^ 64"
    using d(2) [OF tl] by (simp add: IO_PER_THREAD_def)
  have "g_total_completed s \<le> THREADS_PER_REACTOR * IO_PER_THREAD"
    using reactor_inv_totals [OF inv] d(6) by auto
  then have g_small: "g_total_completed s + 1 < 2 ^ 64"
    by (simp add: IO_PER_THREAD_def THREADS_PER_REACTOR_def)
  have gctx: "g_ctx s' = (g_ctx s)[t := (g_ctx s ! t)\<lparr>completed := completed (g_ctx s ! t) + 1\<rparr>]"
    using ct_small by (simp add: s'_def io_complete_fields s0_def t_def u64_small)
  have gtot: "g_total_completed s' = g_total_completed s + 1"
    using g_small by (simp add: s'_def io_complete_fields s0_def u64_small)
  have infl: "inflight s' = inflight s0" by (simp add: s'_def io_complete_fields)
  have sub: "submitted (g_ctx s' ! u) = submitted (g_ctx s ! u)" for u
    unfolding gctx by (simp add: nth_update_same)
  have com: "completed (g_ctx s' ! u) = completed (g_ctx s ! u) + (if u = t then 1 else 0)"
    if "u < THREADS_PER_REACTOR" for u
    unfolding gctx using that len by (simp add: nth_list_update)
  have fr: "pending s' = pending s" "g_total_expected s' = g_total_expected s"
    "started s' = started s"
    by (simp_all add: s'_def io_complete_fields s0_def)
  have a: "acct s'"
    unfolding acct_def
  proof (intro conjI allI impI ballI)
    show "length (g_ctx s') = THREADS_PER_REACTOR" using len by (simp add: gctx)
    show "submitted (g_ctx s' ! u) = completed (g_ctx s' ! u) + outstanding_of u s'"
      if "u < THREADS_PER_REACTOR" for u
    proof -
      have "outstanding_of u s' = outstanding_of u s0"
        by (simp add: outstanding_of_def infl)
      then show ?thesis
        using eq [OF that] out [of u] com [OF that] sub [of u] by (simp split: if_splits)
    qed
    show "tctx x < THREADS_PER_REACTOR" if "x \<in> set (inflight s')" for x
    proof -
      from that have "x \<in> set (inflight s)"
        by (auto simp: infl s0_def dest: in_set_takeD in_set_dropD)
      then show ?thesis using d(1) by (simp add: acct_def)
    qed
    have "sum_list (map completed (g_ctx s')) + completed (g_ctx s ! t) =
          sum_list (map completed (g_ctx s)) + (completed (g_ctx s ! t) + 1)"
      unfolding gctx using sum_list_map_update [of t "g_ctx s" completed] tl len by simp
    then show "g_total_completed s' = sum_list (map completed (g_ctx s'))"
      using gtot d(1) by (simp add: acct_def)
  qed
  show ?thesis
    unfolding k_def [symmetric] s0_def [symmetric] s'_def [symmetric]
  proof (rule reactor_invI)
    show "acct s'" by (rule a)
    show "submitted (g_ctx s' ! u) \<le> IO_PER_THREAD" if "u < THREADS_PER_REACTOR" for u
      using d(2) [OF that] by (simp add: sub)
    show "set (pending s') \<subseteq> {..<THREADS_PER_REACTOR}" using d(3) by (simp add: fr)
    show "distinct (pending s')" using d(4) by (simp add: fr)
    show "submitted (g_ctx s' ! u) = 0" if "u \<in> set (pending s')" for u
      using that d(5) by (simp add: fr sub)
    show "g_total_expected s' = THREADS_PER_REACTOR * IO_PER_THREAD \<or>
      g_total_expected s' = 0 \<and> pending s' = [] \<and>
        (\<forall>u < THREADS_PER_REACTOR. submitted (g_ctx s' ! u) = 0)"
      using d(6) by (simp add: fr sub)
    show "inflight s' = [] \<and> pending s' = []" if "\<not> started s'"
      using that d(7) i by (auto simp: fr)
  qed
qed

lemma reachable_inv: "reachable s \<Longrightarrow> reactor_inv s"
proof (induction rule: reachable.induct)
  case r_init
  show ?case by (rule reactor_inv_init)
next
  case (r_start s rc)
  then show ?case by (simp add: reactor_inv_start)
next
  case (r_work s t n env)
  then show ?case by (simp add: reactor_inv_work)
next
  case (r_complete s i success)
  then show ?case by (simp add: reactor_inv_complete)
qed

text \<open>
  C1. In every state the single-reactor program can reach, the completed counters never
  exceed the submitted counters, per thread and in total, and the submitted total never
  exceeds the expected total.
\<close>

theorem reactor_counters_ordered:
  assumes "reachable s"
  shows "g_total_completed s \<le> total_submitted s \<and> total_submitted s \<le> g_total_expected s \<and>
         (\<forall>t < THREADS_PER_REACTOR.
            completed (g_ctx s ! t) \<le> submitted (g_ctx s ! t) \<and>
            submitted (g_ctx s ! t) \<le> IO_PER_THREAD)"
  using reactor_inv_totals [OF reachable_inv [OF assms]]
    reactor_invD(1,2) [OF reachable_inv [OF assms]] acct_completed_le
  by blast

lemma thread_loop_numeral:
  "thread_loop env t (numeral k) s =
     submit_one_io (block_size env) (submit_envs env (pred_numeral k)) t
       (pred_numeral k mod (if num_blocks env \<noteq> 0 then num_blocks env else 1)) 1
       (thread_loop env t (pred_numeral k) s)"
  by (simp add: numeral_eq_Suc)

lemma thread_loop_one:
  "thread_loop env t 1 s =
     submit_one_io (block_size env) (submit_envs env 0) t
       (0 mod (if num_blocks env \<noteq> 0 then num_blocks env else 1)) 1 s"
  unfolding One_nat_def by simp

lemma run_started_pending: "pending run_started = [0, 1, 2]"
  by (simp add: run_started_def app_start_def reactor_init_def THREADS_PER_REACTOR_def upt_rec)

lemma run_submitted_value:
  "map submitted (g_ctx run_submitted) = [8, 0, 0] \<and>
   map completed (g_ctx run_submitted) = [0, 0, 0] \<and>
   g_total_expected run_submitted = 24 \<and> g_total_completed run_submitted = 0 \<and>
   map tctx (inflight run_submitted) = [0, 0, 0, 0, 0, 0, 0, 0]"
  apply (simp add: run_submitted_def thread_work_def thread_work_upto_def accepting_def
      IO_PER_THREAD_def
      thread_loop_numeral thread_loop_one submit_one_io_def Let_def spdk_zmalloc_def)
  apply (simp add: run_started_def app_start_def reactor_init_def THREADS_PER_REACTOR_def
       heap_init_def upt_rec numeral_3_eq_3 IO_PER_THREAD_def)
  apply (simp add: u64_def u32_def)
  done

lemma run_completed_value:
  "g_total_completed run_completed = 1 \<and> total_submitted run_completed = 8 \<and>
   g_total_expected run_completed = 24"
proof -
  have l: "length (g_ctx run_submitted) = 3"
    using run_submitted_value by (metis length_map length_Cons list.size(3) numeral_3_eq_3)
  have "inflight run_submitted \<noteq> []" using run_submitted_value by auto
  then have t0: "tctx (inflight run_submitted ! 0) = 0"
    using run_submitted_value by (metis length_greater_0_conv nth_map nth_Cons_0)
  have "map submitted (g_ctx run_completed) = map submitted (g_ctx run_submitted)"
    by (simp add: run_completed_def io_complete_fields map_update_same)
  then show ?thesis
    using run_submitted_value
    by (simp add: run_completed_def io_complete_fields total_submitted_def u64_def)
qed

lemma run_reachable: "reachable run_completed"
proof -
  have 1: "reachable run_started"
    unfolding run_started_def by (rule r_start [OF r_init]) (simp add: reactor_init_def)
  have 2: "reachable run_submitted"
    unfolding run_submitted_def thread_work_def
    by (rule r_work [OF 1]) (simp_all add: run_started_pending)
  have "length (map tctx (inflight run_submitted)) = 8"
    using run_submitted_value by simp
  then have 3: "0 < length (inflight run_submitted)" by simp
  show ?thesis
    unfolding run_completed_def by (rule r_complete [OF 2 3])
qed

theorem reactor_counters_ordered_witness:
  "reachable run_completed \<and> g_total_completed run_completed = 1 \<and>
   total_submitted run_completed = 8 \<and> g_total_expected run_completed = 24 \<and>
   g_total_completed run_completed \<le> total_submitted run_completed \<and>
   total_submitted run_completed \<le> g_total_expected run_completed"
  using reactor_counters_ordered [OF run_reachable] run_reachable run_completed_value
  by simp

text \<open>
  C9. A submission that fails, because an allocation fails or because the read call
  returns a nonzero code, leaves every thread counter, the completed total, the
  outstanding requests and the \<^verbatim>\<open>spdk_app_stop\<close> log as they were, and
  the buffers and task records that are live after the call are those live before it:
  the buffer allocated for the request is freed before returning. The only trace is
  one message on stderr. This holds for \<^verbatim>\<open>submit_one_io\<close> and for
  \<^verbatim>\<open>submit_bdev_io\<close>.
\<close>

theorem failed_submission_effect_free:
  "(submit_failed env \<longrightarrow>
      g_ctx (submit_one_io bsz env t lba nb s) = g_ctx s \<and>
      g_total_completed (submit_one_io bsz env t lba nb s) = g_total_completed s \<and>
      inflight (submit_one_io bsz env t lba nb s) = inflight s \<and>
      live_bufs (dma (submit_one_io bsz env t lba nb s)) = live_bufs (dma s) \<and>
      live_tasks (submit_one_io bsz env t lba nb s) = live_tasks s \<and>
      stops (submit_one_io bsz env t lba nb s) = stops s \<and>
      length (errs (submit_one_io bsz env t lba nb s)) = Suc (length (errs s)) \<and>
      freed_bufs (dma (submit_one_io bsz env t lba nb s)) =
        (if calloc_ok env \<and> zmalloc_ok env
         then freed_bufs (dma s) @ [next_buf (dma s)] else freed_bufs (dma s))) \<and>
   (\<not> malloc_ok menv \<or> read_rc menv \<noteq> 0 \<longrightarrow>
      ctx (submit_bdev_io menv b) = ctx b \<and>
      queued (submit_bdev_io menv b) = queued b \<and>
      live_bufs (mem (submit_bdev_io menv b)) = live_bufs (mem b) \<and>
      length (trace (submit_bdev_io menv b)) = Suc (length (trace b)) \<and>
      freed_bufs (mem (submit_bdev_io menv b)) =
        (if malloc_ok menv then freed_bufs (mem b) @ [next_buf (mem b)] else freed_bufs (mem b)))"
  by (auto simp: submit_failed_def submit_one_io_def submit_bdev_io_def Let_def spdk_zmalloc_def
      spdk_free_def)

theorem failed_submission_effect_free_witness:
  "submit_failed refused \<and>
   g_ctx (submit_one_io 4096 refused 0 5 1 run_started) = g_ctx run_started \<and>
   inflight (submit_one_io 4096 refused 0 5 1 run_started) = inflight run_started \<and>
   live_bufs (dma (submit_one_io 4096 refused 0 5 1 run_started)) = [] \<and>
   freed_bufs (dma (submit_one_io 4096 refused 0 5 1 run_started)) = [0] \<and>
   ctx (submit_bdev_io alloc_fails bdev_app_init) = ctx bdev_app_init"
proof -
  have f: "submit_failed refused" by (simp add: submit_failed_def refused_def)
  have m: "\<not> malloc_ok alloc_fails" by (simp add: alloc_fails_def)
  have d: "dma run_started = heap_init"
    by (simp add: run_started_def app_start_def reactor_init_def)
  from failed_submission_effect_free [of refused 4096 0 5 1 run_started alloc_fails bdev_app_init]
    f m show ?thesis
    by (simp add: d heap_init_def refused_def)
qed

text \<open>
  C5, as stated, fails. \<^verbatim>\<open>submit_one_io\<close> checks none of its arguments:
  a read of block 5000 is handed to the device layer (the call is in its log) although
  the device refuses it, and a read of zero blocks that the device layer accepts is
  counted as submitted and becomes outstanding.
\<close>

theorem submit_one_io_no_validation:
  "reads (submit_one_io 4096 refused 0 5000 1 run_started) = [(5000 * 4096, 4096)] \<and>
   submitted (g_ctx (submit_one_io 4096 accepted 0 0 0 run_started) ! 0) = 1 \<and>
   reads (submit_one_io 4096 accepted 0 0 0 run_started) = [(0, 0)] \<and>
   length (inflight (submit_one_io 4096 accepted 0 0 0 run_started)) = 1"
  apply (simp add: submit_one_io_def Let_def spdk_zmalloc_def refused_def accepted_def)
  apply (simp add: run_started_def app_start_def reactor_init_def THREADS_PER_REACTOR_def
      numeral_3_eq_3)
  apply (simp add: u64_def u32_def)
  done

text \<open>
  C5, amended. Whatever the block address and block count, \<^verbatim>\<open>submit_one_io\<close>
  hands the read to the device layer whenever both allocations succeed; the submitted
  counter and the outstanding requests change exactly when the device layer accepts the
  read, and \<^verbatim>\<open>spdk_app_stop\<close> is not called.
\<close>

theorem submit_one_io_delegates_validation:
  assumes "t < length (g_ctx s)"
  shows "reads (submit_one_io bsz env t lba nb s) =
           (if calloc_ok env \<and> zmalloc_ok env
            then reads s @ [(u64 (lba * bsz), u32 (bsz * nb))] else reads s) \<and>
         submitted (g_ctx (submit_one_io bsz env t lba nb s) ! t) =
           (if submit_failed env then submitted (g_ctx s ! t)
            else u64 (submitted (g_ctx s ! t) + 1)) \<and>
         length (inflight (submit_one_io bsz env t lba nb s)) =
           (if submit_failed env then length (inflight s) else Suc (length (inflight s))) \<and>
         stops (submit_one_io bsz env t lba nb s) = stops s"
  using assms
  by (auto simp: submit_failed_def submit_one_io_def Let_def spdk_zmalloc_def)

theorem submit_one_io_delegates_validation_witness:
  "0 < length (g_ctx run_started) \<and>
   reads (submit_one_io 4096 refused 0 5000 1 run_started) =
     reads run_started @ [(u64 (5000 * 4096), u32 (4096 * 1))] \<and>
   submitted (g_ctx (submit_one_io 4096 refused 0 5000 1 run_started) ! 0) =
     submitted (g_ctx run_started ! 0)"
proof -
  have l: "0 < length (g_ctx run_started)"
    by (simp add: run_started_def app_start_def reactor_init_def THREADS_PER_REACTOR_def)
  have f: "submit_failed refused" "calloc_ok refused" "zmalloc_ok refused"
    by (simp_all add: submit_failed_def refused_def)
  from submit_one_io_delegates_validation [OF l, of 4096 refused 5000 1] l f
  show ?thesis by simp
qed

subsection \<open>The buffers of bdev\_reactor\_multi\_threads.c round-trip\<close>

lemma heap_ok_cong:
  "heap_ok s \<Longrightarrow> dma s' = dma s \<Longrightarrow> inflight s' = inflight s \<Longrightarrow> heap_ok s'"
  by (simp add: heap_ok_def)

lemma owned_fresh:
  assumes "owned h ks"
  shows "next_buf h \<notin> set (live_bufs h)" and "next_buf h \<notin> set (freed_bufs h)"
    and "next_buf h \<notin> buf ` set ks"
proof -
  have "next_buf h \<notin> {..<next_buf h}" by simp
  then have n: "next_buf h \<notin> set (live_bufs h) \<union> set (freed_bufs h)"
    using assms unfolding owned_def by metis
  then show "next_buf h \<notin> set (live_bufs h)" and "next_buf h \<notin> set (freed_bufs h)"
    by simp_all
  then show "next_buf h \<notin> buf ` set ks"
    using assms unfolding owned_def by metis
qed

lemma owned_refused:
  assumes "owned h ks"
  shows "owned (h\<lparr>next_buf := Suc (next_buf h), freed_bufs := freed_bufs h @ [next_buf h]\<rparr>) ks"
  using assms owned_fresh [OF assms] unfolding owned_def
  by (auto simp: lessThan_Suc)

lemma owned_accepted:
  assumes "owned h ks"
  shows "owned (h\<lparr>next_buf := Suc (next_buf h), live_bufs := next_buf h # live_bufs h\<rparr>)
           (ks @ [\<lparr>task_addr = a, tctx = t, buf = next_buf h\<rparr>])"
  using assms owned_fresh [OF assms] unfolding owned_def
  by (auto simp: lessThan_Suc)

lemma owned_completed:
  assumes "owned h (ks1 @ k # ks2)"
  shows "owned (h\<lparr>live_bufs := remove1 (buf k) (live_bufs h),
                   freed_bufs := freed_bufs h @ [buf k]\<rparr>) (ks1 @ ks2)"
proof -
  from assms have dk: "distinct (map buf (ks1 @ k # ks2))"
    and img: "buf ` set (ks1 @ k # ks2) = set (live_bufs h)"
    and dl: "distinct (live_bufs h)" and df: "distinct (freed_bufs h)"
    and disj: "set (live_bufs h) \<inter> set (freed_bufs h) = {}"
    and un: "set (live_bufs h) \<union> set (freed_bufs h) = {..<next_buf h}"
    unfolding owned_def by blast+
  from dk have kn: "buf k \<notin> buf ` set (ks1 @ ks2)" and dr: "distinct (map buf (ks1 @ ks2))"
    by auto
  have kl: "buf k \<in> set (live_bufs h)" using img by auto
  then have kf: "buf k \<notin> set (freed_bufs h)" using disj by auto
  have "set (live_bufs h) = insert (buf k) (buf ` set (ks1 @ ks2))" using img by auto
  then have rm: "set (remove1 (buf k) (live_bufs h)) = buf ` set (ks1 @ ks2)"
    using dl kn by (simp add: set_remove1_eq)
  have un': "set (remove1 (buf k) (live_bufs h)) \<union> set (freed_bufs h @ [buf k]) =
     {..<next_buf h}"
    using un kl dl by (auto simp: set_remove1_eq)
  have disj': "set (remove1 (buf k) (live_bufs h)) \<inter> set (freed_bufs h @ [buf k]) = {}"
    using disj dl by (auto simp: set_remove1_eq)
  show ?thesis
    unfolding owned_def using dr rm dl df kf un' disj'
    by (simp add: distinct_remove1)
qed

lemma submit_one_io_heap_ok:
  assumes "heap_ok s"
  shows "heap_ok (submit_one_io bsz env t lba nb s)"
proof -
  let ?n = "next_buf (dma s)"
  let ?s' = "submit_one_io bsz env t lba nb s"
  from assms have o: "owned (dma s) (inflight s)" by (simp add: heap_ok_def)
  consider (fail) "\<not> calloc_ok env \<or> \<not> zmalloc_ok env"
    | (refused) "calloc_ok env" "zmalloc_ok env" "bdev_read_rc env \<noteq> 0"
    | (accepted) "calloc_ok env" "zmalloc_ok env" "bdev_read_rc env = 0"
    by blast
  then show ?thesis
  proof cases
    case fail
    then have "dma ?s' = dma s" "inflight ?s' = inflight s"
      by (auto simp: submit_one_io_def Let_def spdk_zmalloc_def)
    with assms show ?thesis by (rule heap_ok_cong)
  next
    case refused
    then have d: "dma ?s' =
        (dma s)\<lparr>next_buf := Suc ?n, freed_bufs := freed_bufs (dma s) @ [?n]\<rparr>"
      and i: "inflight ?s' = inflight s"
      by (simp_all add: submit_one_io_def Let_def spdk_zmalloc_def spdk_free_def)
    show ?thesis
      unfolding heap_ok_def d i by (rule owned_refused [OF o])
  next
    case accepted
    then have d: "dma ?s' =
        (dma s)\<lparr>next_buf := Suc ?n, live_bufs := ?n # live_bufs (dma s)\<rparr>"
      and i: "inflight ?s' =
        inflight s @ [\<lparr>task_addr = next_task s, tctx = t, buf = ?n\<rparr>]"
      by (simp_all add: submit_one_io_def Let_def spdk_zmalloc_def)
    show ?thesis
      unfolding heap_ok_def d i by (rule owned_accepted [OF o])
  qed
qed

lemma thread_loop_heap_ok: "heap_ok s \<Longrightarrow> heap_ok (thread_loop env t n s)"
  by (induction n) (simp_all add: submit_one_io_heap_ok)

lemma thread_work_upto_heap_ok:
  assumes "heap_ok s"
  shows "heap_ok (thread_work_upto n env t (s\<lparr>pending := ps\<rparr>))"
proof -
  have 1: "heap_ok (s\<lparr>pending := ps,
      g_ctx := (g_ctx s)[t := (g_ctx s ! t)\<lparr>ch := True\<rparr>]\<rparr>)"
    by (rule heap_ok_cong [OF assms]) simp_all
  have 2: "heap_ok (s\<lparr>pending := ps, errs := errs s @ [''get_io_channel failed'']\<rparr>)"
    by (rule heap_ok_cong [OF assms]) simp_all
  show ?thesis
    using thread_loop_heap_ok [OF 1] 2 by (simp add: thread_work_upto_def)
qed

lemma app_start_heap_ok:
  assumes "heap_ok s"
  shows "heap_ok (app_start rc (s\<lparr>started := True\<rparr>))"
  by (rule heap_ok_cong [OF assms]) (simp_all add: app_start_def)

lemma io_complete_heap_ok:
  assumes h: "heap_ok s" and i: "i < length (inflight s)"
  shows "heap_ok (io_complete success (inflight s ! i)
                  (s\<lparr>inflight := take i (inflight s) @ drop (Suc i) (inflight s)\<rparr>))"
proof -
  define k where "k = inflight s ! i"
  let ?s' = "io_complete success k
     (s\<lparr>inflight := take i (inflight s) @ drop (Suc i) (inflight s)\<rparr>)"
  have split: "inflight s = take i (inflight s) @ k # drop (Suc i) (inflight s)"
    unfolding k_def using i by (rule id_take_nth_drop)
  from h have "owned (dma s) (inflight s)" by (simp add: heap_ok_def)
  then have o: "owned (dma s) (take i (inflight s) @ k # drop (Suc i) (inflight s))"
    using split by simp
  have d: "dma ?s' = (dma s)\<lparr>live_bufs := remove1 (buf k) (live_bufs (dma s)),
      freed_bufs := freed_bufs (dma s) @ [buf k]\<rparr>"
    and inf: "inflight ?s' = take i (inflight s) @ drop (Suc i) (inflight s)"
    by (simp_all add: io_complete_def Let_def spdk_free_def)
  have "heap_ok ?s'"
    unfolding heap_ok_def d inf by (rule owned_completed [OF o])
  then show ?thesis by (simp add: k_def)
qed

lemma reachable_heap_ok: "reachable s \<Longrightarrow> heap_ok s"
proof (induction rule: reachable.induct)
  case r_init
  show ?case by (simp add: heap_ok_def owned_def reactor_init_def heap_init_def)
next
  case (r_start s rc)
  then show ?case by (simp add: app_start_heap_ok)
next
  case (r_work s t n env)
  then show ?case by (simp add: thread_work_upto_heap_ok)
next
  case (r_complete s i success)
  then show ?case by (simp add: io_complete_heap_ok)
qed

text \<open>
  In \<^verbatim>\<open>bdev_reactor_multi_threads.c\<close> the buffers round-trip: in every state the
  program can reach, the buffers still allocated are exactly those of the outstanding
  requests, no buffer has been freed twice, and once no request is outstanding every
  buffer that was allocated has been freed exactly once.
\<close>

lemma reactor_buffers_round_trip:
  assumes "reachable s"
  shows "set (live_bufs (dma s)) = buf ` set (inflight s) \<and>
         distinct (freed_bufs (dma s)) \<and>
         (inflight s = [] \<longrightarrow>
            live_bufs (dma s) = [] \<and> set (freed_bufs (dma s)) = {..<next_buf (dma s)})"
  using reachable_heap_ok [OF assms] unfolding heap_ok_def owned_def by auto

section \<open>Verification: bdev\_multicore\_multi\_threads.c\<close>

lemma mc_submit_step_accept:
  "mc_submit_io accept_all t (Suc i) s =
     (let s1 = mc_submit_io accept_all t i s in
      s1\<lparr>mc_dma := (mc_dma s1)\<lparr>next_buf := Suc (next_buf (mc_dma s1)),
                      live_bufs := next_buf (mc_dma s1) # live_bufs (mc_dma s1)\<rparr>,
         mc_reads := mc_reads s1 @ [(i, 1)],
         mc_queue := mc_queue s1 @ [Some (next_buf (mc_dma s1))]\<rparr>)"
  by (simp add: Let_def accept_all_def spdk_zmalloc_def)

lemma mc_thread_work_accept:
  "mc_thread_work accept_all t s =
     s\<lparr>mc_trace := mc_trace s @ [GetIoChannel], mc_pending := remove1 t (mc_pending s),
       mc_dma := (mc_dma s)\<lparr>next_buf := next_buf (mc_dma s) + 4,
          live_bufs := [next_buf (mc_dma s) + 3, next_buf (mc_dma s) + 2,
                        next_buf (mc_dma s) + 1, next_buf (mc_dma s)] @ live_bufs (mc_dma s)\<rparr>,
       mc_reads := mc_reads s @ [(0, 1), (1, 1), (2, 1), (3, 1)],
       mc_queue := mc_queue s @ [Some (next_buf (mc_dma s)), Some (next_buf (mc_dma s) + 1),
                                 Some (next_buf (mc_dma s) + 2), Some (next_buf (mc_dma s) + 3)]\<rparr>"
  unfolding mc_thread_work_def MC_IO_PER_THREAD_def
  apply (simp only: numeral_eq_Suc pred_numeral_simps BitM.simps)
  apply (simp only: mc_submit_step_accept mc_submit_io.simps(1) Let_def)
  apply simp
  done

lemma scenario_A_submitted_value:
  "scenario_A_submitted =
     \<lparr>mc_total_expected = 16, mc_total_completed = 0,
      mc_dma = \<lparr>next_buf = 16, live_bufs = [15, 14, 13, 12, 11, 10, 9, 8, 7, 6, 5, 4, 3, 2, 1, 0],
                freed_bufs = []\<rparr>,
      mc_reads = [(0, 1), (1, 1), (2, 1), (3, 1), (0, 1), (1, 1), (2, 1), (3, 1),
                  (0, 1), (1, 1), (2, 1), (3, 1), (0, 1), (1, 1), (2, 1), (3, 1)],
      mc_queue = map Some [0, 1, 2, 3, 4, 5, 6, 7, 8, 9, 10, 11, 12, 13, 14, 15],
      mc_delivered = [], mc_polls = 0, mc_stops = [],
      mc_trace = [BdevOpen, GetIoChannel, GetIoChannel, GetIoChannel, GetIoChannel],
      mc_pending = []\<rparr>"
proof -
  define s0 where "s0 = mc_app_start 0 mc_init"
  have p: "mc_pending s0 = [0, 1, 2, 3]"
    by (simp add: s0_def mc_app_start_def MC_THREADS_PER_REACTOR_def upt_rec)
  have e: "scenario_A_submitted =
    mc_thread_work accept_all 3 (mc_thread_work accept_all 2
      (mc_thread_work accept_all 1 (mc_thread_work accept_all 0 s0)))"
    by (simp add: scenario_A_submitted_def mc_submitted_def Let_def s0_def [symmetric] p)
  have v: "s0 = \<lparr>mc_total_expected = 16, mc_total_completed = 0, mc_dma = heap_init,
      mc_reads = [], mc_queue = [], mc_delivered = [], mc_polls = 0, mc_stops = [], mc_trace = [BdevOpen],
      mc_pending = [0, 1, 2, 3]\<rparr>"
    by (simp add: s0_def mc_app_start_def mc_init_def MC_THREADS_PER_REACTOR_def
        MC_IO_PER_THREAD_def upt_rec)
  show ?thesis
    unfolding e
    apply (simp only: mc_thread_work_accept)
    apply (simp add: v heap_init_def)
    done
qed

lemma mc_io_complete_fields:
  "mc_total_completed (mc_io_complete ok s) = u64 (mc_total_completed s + 1)"
  "mc_stops (mc_io_complete ok s) =
     mc_stops s @ (if u64 (mc_total_completed s + 1) = mc_total_expected s then [0] else [])"
  "mc_total_expected (mc_io_complete ok s) = mc_total_expected s"
  "mc_queue (mc_io_complete ok s) = mc_queue s"
  "mc_delivered (mc_io_complete ok s) = mc_delivered s"
  "mc_dma (mc_io_complete ok s) = mc_dma s"
  "mc_trace (mc_io_complete ok s) = mc_trace s"
  "mc_polls (mc_io_complete ok s) = mc_polls s"
  by (simp_all add: mc_io_complete_def Let_def)

lemma trigger_split:
  "(if c + 1 = e then [0::int] else []) @ (if c + 1 < e \<and> e \<le> c + 1 + k then [0] else []) =
   (if c < e \<and> e \<le> c + 1 + (k::nat) then [0] else [])"
  by auto

lemma fold_mc_io_complete:
  "mc_total_completed s + length fl < 2 ^ 64 \<Longrightarrow>
   mc_total_completed (fold mc_io_complete fl s) = mc_total_completed s + length fl \<and>
   mc_stops (fold mc_io_complete fl s) =
     mc_stops s @ (if mc_total_completed s < mc_total_expected s \<and>
                      mc_total_expected s \<le> mc_total_completed s + length fl then [0] else []) \<and>
   mc_total_expected (fold mc_io_complete fl s) = mc_total_expected s"
proof (induction fl arbitrary: s)
  case Nil
  then show ?case by auto
next
  case (Cons f fl)
  let ?s1 = "mc_io_complete f s"
  have c1: "mc_total_completed ?s1 = mc_total_completed s + 1"
    using Cons.prems by (simp add: mc_io_complete_fields u64_small)
  have st1: "mc_stops ?s1 =
     mc_stops s @ (if mc_total_completed s + 1 = mc_total_expected s then [0] else [])"
    using Cons.prems by (simp add: mc_io_complete_fields u64_small)
  have e1: "mc_total_expected ?s1 = mc_total_expected s"
    by (simp add: mc_io_complete_fields)
  have "mc_total_completed ?s1 + length fl < 2 ^ 64" using Cons.prems c1 by simp
  from Cons.IH [OF this] show ?case
    unfolding c1 st1 e1 using trigger_split [of "mc_total_completed s" "mc_total_expected s" "length fl"]
    by simp
qed

lemma fold_mc_deliver:
  "mc_total_completed s + min (length fl) (length (mc_queue s)) < 2 ^ 64 \<Longrightarrow>
   mc_queue (fold mc_deliver fl s) = drop (length fl) (mc_queue s) \<and>
   mc_delivered (fold mc_deliver fl s) = mc_delivered s @ take (length (mc_queue s)) fl \<and>
   mc_total_completed (fold mc_deliver fl s) =
     mc_total_completed s + min (length fl) (length (mc_queue s)) \<and>
   mc_stops (fold mc_deliver fl s) =
     mc_stops s @ (if mc_total_completed s < mc_total_expected s \<and>
                      mc_total_expected s \<le>
                        mc_total_completed s + min (length fl) (length (mc_queue s))
                   then [0] else []) \<and>
   mc_total_expected (fold mc_deliver fl s) = mc_total_expected s \<and>
   mc_dma (fold mc_deliver fl s) = mc_dma s \<and>
   mc_trace (fold mc_deliver fl s) = mc_trace s \<and>
   mc_polls (fold mc_deliver fl s) = mc_polls s"
proof (induction fl arbitrary: s)
  case Nil
  then show ?case by auto
next
  case (Cons f fl)
  show ?case
  proof (cases "mc_queue s")
    case Nil
    then have "mc_deliver f s = s" by (simp add: mc_deliver_def)
    with Cons.IH [of s] Cons.prems Nil show ?thesis by simp
  next
    case (Cons b q)
    let ?s1 = "mc_deliver f s"
    have d: "?s1 = mc_io_complete f (s\<lparr>mc_queue := q, mc_delivered := mc_delivered s @ [f]\<rparr>)"
      using Cons by (simp add: mc_deliver_def)
    have small: "mc_total_completed s + 1 < 2 ^ 64"
      using Cons.prems Cons by simp
    have c1: "mc_total_completed ?s1 = mc_total_completed s + 1"
      using small unfolding d by (simp add: mc_io_complete_fields u64_small)
    have st1: "mc_stops ?s1 =
       mc_stops s @ (if mc_total_completed s + 1 = mc_total_expected s then [0] else [])"
      using small unfolding d by (simp add: mc_io_complete_fields u64_small)
    have r1: "mc_total_expected ?s1 = mc_total_expected s" "mc_queue ?s1 = q"
      "mc_delivered ?s1 = mc_delivered s @ [f]" "mc_dma ?s1 = mc_dma s"
      "mc_trace ?s1 = mc_trace s" "mc_polls ?s1 = mc_polls s"
      unfolding d by (simp_all add: mc_io_complete_fields)
    have "mc_total_completed ?s1 + min (length fl) (length (mc_queue ?s1)) < 2 ^ 64"
      using Cons.prems c1 r1(2) Cons by simp
    from Cons.IH [OF this] show ?thesis
      unfolding c1 st1 r1 Cons
      using trigger_split [of "mc_total_completed s" "mc_total_expected s"
          "min (length fl) (length q)"]
      by simp
  qed
qed

lemma mc_run_stopped: "mc_stops s \<noteq> [] \<Longrightarrow> mc_run ps s = Some s"
  by (cases ps) simp_all

lemma take_all_True:
  "False \<notin> set p \<Longrightarrow> take n p = replicate (min n (length p)) True"
proof (induction p arbitrary: n)
  case Nil
  then show ?case by simp
next
  case (Cons a p)
  from Cons.prems have a: "a = True" and r: "False \<notin> set p" by auto
  show ?case
  proof (cases n)
    case 0
    then show ?thesis by simp
  next
    case (Suc m)
    with Cons.IH [OF r, of m] a show ?thesis by simp
  qed
qed

lemma mc_poll_fields:
  assumes "mc_total_completed s + length (mc_queue s) < 2 ^ 64"
  shows "mc_queue (mc_poll p s) = drop (length p) (mc_queue s)"
    and "mc_delivered (mc_poll p s) = mc_delivered s @ take (length (mc_queue s)) p"
    and "mc_total_completed (mc_poll p s) =
           mc_total_completed s + min (length p) (length (mc_queue s))"
    and "mc_stops (mc_poll p s) =
           mc_stops s @ (if mc_total_completed s < mc_total_expected s \<and>
                      mc_total_expected s \<le>
                        mc_total_completed s + min (length p) (length (mc_queue s))
                   then [0] else [])"
    and "mc_total_expected (mc_poll p s) = mc_total_expected s"
    and "mc_dma (mc_poll p s) = mc_dma s"
    and "mc_trace (mc_poll p s) = mc_trace s"
    and "mc_polls (mc_poll p s) = Suc (mc_polls s)"
proof -
  let ?s0 = "s\<lparr>mc_polls := Suc (mc_polls s)\<rparr>"
  have "mc_total_completed ?s0 + min (length p) (length (mc_queue ?s0)) < 2 ^ 64"
    using assms by simp
  from fold_mc_deliver [OF this]
  show "mc_queue (mc_poll p s) = drop (length p) (mc_queue s)"
    and "mc_delivered (mc_poll p s) = mc_delivered s @ take (length (mc_queue s)) p"
    and "mc_total_completed (mc_poll p s) =
           mc_total_completed s + min (length p) (length (mc_queue s))"
    and "mc_stops (mc_poll p s) =
           mc_stops s @ (if mc_total_completed s < mc_total_expected s \<and>
                      mc_total_expected s \<le>
                        mc_total_completed s + min (length p) (length (mc_queue s))
                   then [0] else [])"
    and "mc_total_expected (mc_poll p s) = mc_total_expected s"
    and "mc_dma (mc_poll p s) = mc_dma s"
    and "mc_trace (mc_poll p s) = mc_trace s"
    and "mc_polls (mc_poll p s) = Suc (mc_polls s)"
    by (simp_all add: mc_poll_def)
qed

lemma mc_run_drains:
  assumes "\<forall>p \<in> set ps. p \<noteq> [] \<and> False \<notin> set p"
    and "mc_total_completed s + length (mc_queue s) = mc_total_expected s"
    and "mc_total_expected s < 2 ^ 64"
    and "mc_stops s = []" and "mc_total_completed s < mc_total_expected s"
    and "length (mc_queue s) \<le> length ps"
  shows "\<exists>s'. mc_run ps s = Some s' \<and> mc_stops s' = [0] \<and>
           mc_total_completed s' = mc_total_expected s \<and> mc_queue s' = [] \<and>
           mc_delivered s' = mc_delivered s @ replicate (length (mc_queue s)) True \<and>
           mc_polls s' \<le> mc_polls s + length (mc_queue s) \<and>
           mc_dma s' = mc_dma s \<and> mc_trace s' = mc_trace s \<and>
           mc_total_expected s' = mc_total_expected s"
  using assms
proof (induction ps arbitrary: s)
  case Nil
  then have "length (mc_queue s) = 0" by simp
  with Nil.prems(2,5) show ?case by linarith
next
  case (Cons p ps)
  let ?q = "length (mc_queue s)"
  let ?k = "min (length p) ?q"
  let ?s1 = "mc_poll p s"
  have small: "mc_total_completed s + ?q < 2 ^ 64" using Cons.prems(2,3) by simp
  note f = mc_poll_fields [OF small, of p]
  have pne: "p \<noteq> []" and pt: "False \<notin> set p" using Cons.prems(1) by auto
  have qpos: "0 < ?q" using Cons.prems(2,5) by (cases "mc_queue s") auto
  have kpos: "0 < ?k" using pne qpos by simp
  have tk: "take ?q p = replicate ?k True"
    using take_all_True [OF pt, of ?q] by (simp add: min.commute)
  have run: "mc_run (p # ps) s = mc_run ps ?s1" using Cons.prems(4) by simp
  show ?case
  proof (cases "?k = ?q")
    case True
    have st: "mc_stops ?s1 = [0]"
      using Cons.prems(2,4,5) True unfolding f(4) by simp
    then have "mc_run ps ?s1 = Some ?s1" by (simp add: mc_run_stopped)
    moreover have "mc_total_completed ?s1 = mc_total_expected s"
      using Cons.prems(2) True unfolding f(3) by simp
    moreover have "mc_queue ?s1 = []" using True unfolding f(1) by simp
    moreover have "mc_delivered ?s1 = mc_delivered s @ replicate ?q True"
      using True tk unfolding f(2) by simp
    moreover have "mc_polls ?s1 \<le> mc_polls s + ?q" using qpos unfolding f(8) by linarith
    ultimately show ?thesis
      using st f(5,6,7) run by simp
  next
    case False
    then have lt: "?k < ?q" by simp
    have q1: "length (mc_queue ?s1) = ?q - ?k" using lt unfolding f(1) by simp
    have 1: "\<forall>p \<in> set ps. p \<noteq> [] \<and> False \<notin> set p" using Cons.prems(1) by simp
    have 2: "mc_total_completed ?s1 + length (mc_queue ?s1) = mc_total_expected ?s1"
      using Cons.prems(2) lt unfolding f(3) f(5) q1 by simp
    have 3: "mc_total_expected ?s1 < 2 ^ 64" using Cons.prems(3) unfolding f(5) .
    have 4: "mc_stops ?s1 = []" using Cons.prems(2,4) lt unfolding f(4) by simp
    have 5: "mc_total_completed ?s1 < mc_total_expected ?s1"
      using Cons.prems(2) lt unfolding f(3) f(5) by simp
    have "?q \<le> Suc (length ps)" using Cons.prems(6) by simp
    then have 6: "length (mc_queue ?s1) \<le> length ps"
      using kpos unfolding q1 by arith
    from Cons.IH [OF 1 2 3 4 5 6] obtain s' where r: "mc_run ps ?s1 = Some s'"
      "mc_stops s' = [0]" "mc_total_completed s' = mc_total_expected ?s1" "mc_queue s' = []"
      "mc_delivered s' = mc_delivered ?s1 @ replicate (length (mc_queue ?s1)) True"
      "mc_polls s' \<le> mc_polls ?s1 + length (mc_queue ?s1)"
      "mc_dma s' = mc_dma ?s1" "mc_trace s' = mc_trace ?s1"
      "mc_total_expected s' = mc_total_expected ?s1"
      by blast
    have d: "mc_delivered s' = mc_delivered s @ replicate ?q True"
    proof -
      have "replicate ?k True @ replicate (?q - ?k) True = replicate ?q True"
        using lt by (simp add: replicate_add [symmetric])
      then show ?thesis unfolding r(5) f(2) tk q1 by simp
    qed
    have pl: "mc_polls s' \<le> mc_polls s + ?q"
      using r(6) kpos lt unfolding f(8) q1 by arith
    show ?thesis
      using r(1,2,3,4,7,8,9) d pl run unfolding f(5,6,7) by simp
  qed
qed

lemma scenario_A_submitted_fields:
  "mc_total_expected scenario_A_submitted = 16"
  "mc_total_completed scenario_A_submitted = 0"
  "length (mc_queue scenario_A_submitted) = 16"
  "mc_stops scenario_A_submitted = []"
  "mc_delivered scenario_A_submitted = []"
  "mc_polls scenario_A_submitted = 0"
  "mc_trace scenario_A_submitted =
     [BdevOpen, GetIoChannel, GetIoChannel, GetIoChannel, GetIoChannel]"
  "live_bufs (mc_dma scenario_A_submitted) =
     [15, 14, 13, 12, 11, 10, 9, 8, 7, 6, 5, 4, 3, 2, 1, 0]"
  "freed_bufs (mc_dma scenario_A_submitted) = []"
  by (simp_all add: scenario_A_submitted_value)

text \<open>
  Scenario A with the callbacks run one at a time: against a device that accepts every
  read and completes every request successfully, handing back at least one completion in
  each poll, the counter reaches 16 and \<^verbatim>\<open>spdk_app_stop(0)\<close> is called once.
\<close>

lemma scenario_A_run:
  assumes "\<forall>p \<in> set ps. p \<noteq> [] \<and> False \<notin> set p" and "16 \<le> length ps"
  shows "\<exists>s. mc_main 0 accept_all ps = Some (0, s) \<and> mc_total_expected s = 16 \<and>
             mc_total_completed s = 16 \<and> mc_delivered s = replicate 16 True \<and>
             mc_stops s = [0] \<and> mc_queue s = [] \<and> mc_polls s \<le> 16 \<and>
             mc_dma s = mc_dma scenario_A_submitted \<and>
             mc_trace s = mc_trace scenario_A_submitted"
proof -
  note v = scenario_A_submitted_fields
  have "\<exists>s'. mc_run ps scenario_A_submitted = Some s' \<and> mc_stops s' = [0] \<and>
           mc_total_completed s' = mc_total_expected scenario_A_submitted \<and> mc_queue s' = [] \<and>
           mc_delivered s' = mc_delivered scenario_A_submitted @
             replicate (length (mc_queue scenario_A_submitted)) True \<and>
           mc_polls s' \<le> mc_polls scenario_A_submitted + length (mc_queue scenario_A_submitted) \<and>
           mc_dma s' = mc_dma scenario_A_submitted \<and> mc_trace s' = mc_trace scenario_A_submitted \<and>
           mc_total_expected s' = mc_total_expected scenario_A_submitted"
    by (rule mc_run_drains [OF assms(1)]) (use assms(2) in \<open>simp_all add: v\<close>)
  then show ?thesis
    by (auto simp: mc_main_def scenario_A_submitted_def [symmetric] v)
qed

lemma scenario_A_exit_some:
  "\<exists>s. scenario_A_exit = Some (0, s) \<and> mc_stops s = [0] \<and>
       mc_dma s = mc_dma scenario_A_submitted \<and> mc_trace s = mc_trace scenario_A_submitted"
  unfolding scenario_A_exit_def using scenario_A_run [of "replicate 16 [True]"] by auto

text \<open>
  C4 at the failing input. In the run of Scenario A, \<^verbatim>\<open>main\<close> returns after the
  stop with all 16 buffers of \<^verbatim>\<open>submit_io\<close> still allocated:
  \<^verbatim>\<open>spdk_free\<close> has not been called once.
\<close>

theorem multicore_buffers_never_freed:
  "scenario_A_exit \<noteq> None \<and> fst (the scenario_A_exit) = 0 \<and>
   mc_stops (snd (the scenario_A_exit)) = [0] \<and>
   live_bufs (mc_dma (snd (the scenario_A_exit))) =
     [15, 14, 13, 12, 11, 10, 9, 8, 7, 6, 5, 4, 3, 2, 1, 0] \<and>
   freed_bufs (mc_dma (snd (the scenario_A_exit))) = []"
proof -
  from scenario_A_exit_some obtain s where e: "scenario_A_exit = Some (0, s)"
    and f: "mc_stops s = [0]" "mc_dma s = mc_dma scenario_A_submitted"
    by blast
  show ?thesis unfolding e by (simp add: f scenario_A_submitted_fields)
qed

text \<open>
  C7, as stated, fails. The run of Scenario A reaches the stop and returns from
  \<^verbatim>\<open>main\<close> having opened the descriptor and obtained four I/O channels, and
  having released none of them.
\<close>

theorem multicore_stop_without_release:
  "scenario_A_exit \<noteq> None \<and> fst (the scenario_A_exit) = 0 \<and>
   mc_stops (snd (the scenario_A_exit)) = [0] \<and>
   mc_trace (snd (the scenario_A_exit)) =
     [BdevOpen, GetIoChannel, GetIoChannel, GetIoChannel, GetIoChannel] \<and>
   PutIoChannel \<notin> set (mc_trace (snd (the scenario_A_exit))) \<and>
   BdevClose \<notin> set (mc_trace (snd (the scenario_A_exit)))"
proof -
  from scenario_A_exit_some obtain s where e: "scenario_A_exit = Some (0, s)"
    and f: "mc_stops s = [0]" "mc_trace s = mc_trace scenario_A_submitted"
    by blast
  show ?thesis unfolding e by (simp add: f scenario_A_submitted_fields)
qed

subsection \<open>The callback interleaved on two reactors\<close>

lemma micro_callback:
  assumes "r < length (pcs c)" and "pcs c ! r = Idle" and "0 < waiting c ! r"
  shows "micro r (micro r (micro r c)) =
     c\<lparr>waiting := (waiting c)[r := waiting c ! r - 1],
       cg_total_completed := u64 (cg_total_completed c + 1),
       cg_stops := cg_stops c @
         (if u64 (cg_total_completed c + 1) = cg_total_expected c then [0] else [])\<rparr>"
proof -
  define c1 where "c1 = c\<lparr>waiting := (waiting c)[r := waiting c ! r - 1],
                  pcs := (pcs c)[r := Loaded (cg_total_completed c)]\<rparr>"
  define c2 where "c2 = c1\<lparr>cg_total_completed := u64 (cg_total_completed c + 1),
                  pcs := (pcs c1)[r := Stored]\<rparr>"
  have 1: "micro r c = c1" using assms by (simp add: micro_def c1_def)
  have 2: "micro r c1 = c2" using assms by (simp add: micro_def c1_def c2_def)
  have p: "(pcs c)[r := Idle] = pcs c" using assms by (simp add: list_update_same_conv)
  have 3: "micro r c2 = c\<lparr>waiting := (waiting c)[r := waiting c ! r - 1],
       cg_total_completed := u64 (cg_total_completed c + 1),
       cg_stops := cg_stops c @
         (if u64 (cg_total_completed c + 1) = cg_total_expected c then [0] else [])\<rparr>"
    using assms by (simp add: micro_def c1_def c2_def p)
  show ?thesis unfolding 1 2 3 ..
qed

text \<open>
  Three consecutive accesses of one reactor, starting outside the callback, change the
  shared counters and the stop log as one run of the callback does.
\<close>

lemma micro_serial:
  assumes "r < length (pcs c)" and "pcs c ! r = Idle" and "0 < waiting c ! r"
    and "cg_total_completed c = mc_total_completed s"
    and "cg_total_expected c = mc_total_expected s" and "cg_stops c = mc_stops s"
  shows "cg_total_completed (micro r (micro r (micro r c))) =
           mc_total_completed (mc_io_complete ok s) \<and>
         cg_total_expected (micro r (micro r (micro r c))) =
           mc_total_expected (mc_io_complete ok s) \<and>
         cg_stops (micro r (micro r (micro r c))) = mc_stops (mc_io_complete ok s) \<and>
         pcs (micro r (micro r (micro r c))) = pcs c"
  unfolding micro_callback [OF assms(1-3)] using assms(4-6)
  by (simp add: mc_io_complete_fields)

lemma serial_run:
  assumes "r < length (pcs c)" and "pcs c ! r = Idle" and "r < length (waiting c)"
    and "k \<le> waiting c ! r" and "cg_total_completed c + k < cg_total_expected c"
    and "cg_total_expected c < 2 ^ 64"
  shows "fold micro (replicate (3 * k) r) c =
     c\<lparr>waiting := (waiting c)[r := waiting c ! r - k],
       cg_total_completed := cg_total_completed c + k\<rparr>"
  using assms
proof (induction k arbitrary: c)
  case 0
  then show ?case by (simp add: list_update_same_conv)
next
  case (Suc k)
  define c1 where "c1 = c\<lparr>waiting := (waiting c)[r := waiting c ! r - 1],
       cg_total_completed := cg_total_completed c + 1\<rparr>"
  have w: "0 < waiting c ! r" using Suc.prems(4) by simp
  have small: "cg_total_completed c + 1 < 2 ^ 64" using Suc.prems(5,6) by simp
  have ne: "cg_total_completed c + 1 \<noteq> cg_total_expected c" using Suc.prems(5) by simp
  have cb: "micro r (micro r (micro r c)) = c1"
    unfolding micro_callback [OF Suc.prems(1,2) w] using small ne
    by (simp add: u64_small c1_def)
  have r3: "replicate (3 * Suc k) r = r # r # r # replicate (3 * k) r"
    by (simp add: numeral_3_eq_3)
  have ih: "fold micro (replicate (3 * k) r) c1 =
     c1\<lparr>waiting := (waiting c1)[r := waiting c1 ! r - k],
        cg_total_completed := cg_total_completed c1 + k\<rparr>"
    by (rule Suc.IH) (use Suc.prems in \<open>simp_all add: c1_def\<close>)
  show ?case
    unfolding r3 using ih Suc.prems(3)
    by (simp add: cb) (simp add: c1_def)
qed

lemma scenario_A_conc_value:
  "scenario_A_conc =
     \<lparr>cg_total_expected = 16, cg_total_completed = 0, cg_stops = [], waiting = [8, 8],
      pcs = [Idle, Idle]\<rparr>"
  by (simp add: scenario_A_conc_def MC_THREADS_PER_REACTOR_def MC_IO_PER_THREAD_def
      numeral_2_eq_2)

text \<open>
  C2, as stated, fails. In Scenario A each reactor first processes 7 of its 8
  completions, one callback at a time. The last two completions then arrive on distinct
  reactors; each reactor increments the counter before either compares it, both read 16,
  and \<^verbatim>\<open>spdk_app_stop(0)\<close> is called twice.
\<close>

theorem shutdown_trigger_fires_twice:
  "fold micro (replicate 21 0 @ replicate 21 1 @ [0, 0, 1, 1, 0, 1]) scenario_A_conc =
     \<lparr>cg_total_expected = 16, cg_total_completed = 16, cg_stops = [0, 0],
      waiting = [0, 0], pcs = [Idle, Idle]\<rparr>"
proof -
  have a: "fold micro (replicate 21 0)
     \<lparr>cg_total_expected = 16, cg_total_completed = 0, cg_stops = [],
      waiting = [8, 8], pcs = [Idle, Idle]\<rparr> =
     \<lparr>cg_total_expected = 16, cg_total_completed = 7, cg_stops = [],
      waiting = [1, 8], pcs = [Idle, Idle]\<rparr>"
    using serial_run [of 0 "\<lparr>cg_total_expected = 16, cg_total_completed = 0, cg_stops = [], waiting = [8, 8], pcs = [Idle, Idle]\<rparr>" 7] by simp
  have b: "fold micro (replicate 21 1)
     \<lparr>cg_total_expected = 16, cg_total_completed = 7, cg_stops = [],
      waiting = [1, 8], pcs = [Idle, Idle]\<rparr> =
     \<lparr>cg_total_expected = 16, cg_total_completed = 14, cg_stops = [],
      waiting = [1, 1], pcs = [Idle, Idle]\<rparr>"
    using serial_run [of 1 "\<lparr>cg_total_expected = 16, cg_total_completed = 7, cg_stops = [], waiting = [1, 8], pcs = [Idle, Idle]\<rparr>" 7] by simp
  have s1: "micro 0
     \<lparr>cg_total_expected = 16, cg_total_completed = 14, cg_stops = [],
      waiting = [1, 1], pcs = [Idle, Idle]\<rparr> =
     \<lparr>cg_total_expected = 16, cg_total_completed = 14, cg_stops = [],
      waiting = [0, 1], pcs = [Loaded 14, Idle]\<rparr>"
    by (simp add: micro_def)
  have s2: "micro 0
     \<lparr>cg_total_expected = 16, cg_total_completed = 14, cg_stops = [],
      waiting = [0, 1], pcs = [Loaded 14, Idle]\<rparr> =
     \<lparr>cg_total_expected = 16, cg_total_completed = 15, cg_stops = [],
      waiting = [0, 1], pcs = [Stored, Idle]\<rparr>"
    by (simp add: micro_def u64_def)
  have s3: "micro 1
     \<lparr>cg_total_expected = 16, cg_total_completed = 15, cg_stops = [],
      waiting = [0, 1], pcs = [Stored, Idle]\<rparr> =
     \<lparr>cg_total_expected = 16, cg_total_completed = 15, cg_stops = [],
      waiting = [0, 0], pcs = [Stored, Loaded 15]\<rparr>"
    by (simp add: micro_def)
  have s4: "micro 1
     \<lparr>cg_total_expected = 16, cg_total_completed = 15, cg_stops = [],
      waiting = [0, 0], pcs = [Stored, Loaded 15]\<rparr> =
     \<lparr>cg_total_expected = 16, cg_total_completed = 16, cg_stops = [],
      waiting = [0, 0], pcs = [Stored, Stored]\<rparr>"
    by (simp add: micro_def u64_def)
  have s5: "micro 0
     \<lparr>cg_total_expected = 16, cg_total_completed = 16, cg_stops = [],
      waiting = [0, 0], pcs = [Stored, Stored]\<rparr> =
     \<lparr>cg_total_expected = 16, cg_total_completed = 16, cg_stops = [0],
      waiting = [0, 0], pcs = [Idle, Stored]\<rparr>"
    by (simp add: micro_def)
  have s6: "micro 1
     \<lparr>cg_total_expected = 16, cg_total_completed = 16, cg_stops = [0],
      waiting = [0, 0], pcs = [Idle, Stored]\<rparr> =
     \<lparr>cg_total_expected = 16, cg_total_completed = 16, cg_stops = [0, 0],
      waiting = [0, 0], pcs = [Idle, Idle]\<rparr>"
    by (simp add: micro_def)
  have t: "fold micro [0, 0, 1, 1, 0, 1]
     \<lparr>cg_total_expected = 16, cg_total_completed = 14, cg_stops = [],
      waiting = [1, 1], pcs = [Idle, Idle]\<rparr> =
     \<lparr>cg_total_expected = 16, cg_total_completed = 16, cg_stops = [0, 0],
      waiting = [0, 0], pcs = [Idle, Idle]\<rparr>"
    by (simp add: s1 s2 s3 s4 s5 s6 del: One_nat_def)
  show ?thesis
    unfolding scenario_A_conc_value fold_append o_apply a b t ..
qed

text \<open>
  C8 at the failing input. The first two completions of Scenario A arrive on distinct
  reactors; both reactors load the counter before either stores it, and after the two
  callbacks have finished \<^verbatim>\<open>g_total_completed\<close> is 1.
\<close>

theorem plain_increment_loses_update:
  "fold micro ([0, 1, 0, 1, 0, 1]) scenario_A_conc =
     \<lparr>cg_total_expected = 16, cg_total_completed = 1, cg_stops = [],
      waiting = [7, 7], pcs = [Idle, Idle]\<rparr>"
proof -
  have s1: "micro 0
     \<lparr>cg_total_expected = 16, cg_total_completed = 0, cg_stops = [],
      waiting = [8, 8], pcs = [Idle, Idle]\<rparr> =
     \<lparr>cg_total_expected = 16, cg_total_completed = 0, cg_stops = [],
      waiting = [7, 8], pcs = [Loaded 0, Idle]\<rparr>"
    by (simp add: micro_def)
  have s2: "micro 1
     \<lparr>cg_total_expected = 16, cg_total_completed = 0, cg_stops = [],
      waiting = [7, 8], pcs = [Loaded 0, Idle]\<rparr> =
     \<lparr>cg_total_expected = 16, cg_total_completed = 0, cg_stops = [],
      waiting = [7, 7], pcs = [Loaded 0, Loaded 0]\<rparr>"
    by (simp add: micro_def)
  have s3: "micro 0
     \<lparr>cg_total_expected = 16, cg_total_completed = 0, cg_stops = [],
      waiting = [7, 7], pcs = [Loaded 0, Loaded 0]\<rparr> =
     \<lparr>cg_total_expected = 16, cg_total_completed = 1, cg_stops = [],
      waiting = [7, 7], pcs = [Stored, Loaded 0]\<rparr>"
    by (simp add: micro_def u64_def)
  have s4: "micro 1
     \<lparr>cg_total_expected = 16, cg_total_completed = 1, cg_stops = [],
      waiting = [7, 7], pcs = [Stored, Loaded 0]\<rparr> =
     \<lparr>cg_total_expected = 16, cg_total_completed = 1, cg_stops = [],
      waiting = [7, 7], pcs = [Stored, Stored]\<rparr>"
    by (simp add: micro_def u64_def)
  have s5: "micro 0
     \<lparr>cg_total_expected = 16, cg_total_completed = 1, cg_stops = [],
      waiting = [7, 7], pcs = [Stored, Stored]\<rparr> =
     \<lparr>cg_total_expected = 16, cg_total_completed = 1, cg_stops = [],
      waiting = [7, 7], pcs = [Idle, Stored]\<rparr>"
    by (simp add: micro_def)
  have s6: "micro 1
     \<lparr>cg_total_expected = 16, cg_total_completed = 1, cg_stops = [],
      waiting = [7, 7], pcs = [Idle, Stored]\<rparr> =
     \<lparr>cg_total_expected = 16, cg_total_completed = 1, cg_stops = [],
      waiting = [7, 7], pcs = [Idle, Idle]\<rparr>"
    by (simp add: micro_def)
  have t: "fold micro [0, 1, 0, 1, 0, 1]
     \<lparr>cg_total_expected = 16, cg_total_completed = 0, cg_stops = [],
      waiting = [8, 8], pcs = [Idle, Idle]\<rparr> =
     \<lparr>cg_total_expected = 16, cg_total_completed = 1, cg_stops = [],
      waiting = [7, 7], pcs = [Idle, Idle]\<rparr>"
    by (simp add: s1 s2 s3 s4 s5 s6 del: One_nat_def)
  show ?thesis
    unfolding scenario_A_conc_value t ..
qed

text \<open>
  The interleaved state of Scenario A is the state of the program after the submissions:
  the same counters, no stop yet, and as many completions to come as reads were queued.
\<close>

lemma scenario_A_conc_of_submitted:
  "cg_total_expected scenario_A_conc = mc_total_expected scenario_A_submitted \<and>
   cg_total_completed scenario_A_conc = mc_total_completed scenario_A_submitted \<and>
   cg_stops scenario_A_conc = mc_stops scenario_A_submitted \<and>
   sum_list (waiting scenario_A_conc) = length (mc_queue scenario_A_submitted)"
  by (simp add: scenario_A_conc_value scenario_A_submitted_fields)

text \<open>
  Once every completion has been delivered with the counter at 15, no access of either
  reactor changes the state: no callback is left to run, and the comparison with the
  expected total is only made inside the callback.
\<close>

lemma drained_short_of_expected:
  assumes "set sched \<subseteq> {0, 1}"
  shows "fold micro sched
     \<lparr>cg_total_expected = 16, cg_total_completed = 15, cg_stops = [],
      waiting = [0, 0], pcs = [Idle, Idle]\<rparr> =
     \<lparr>cg_total_expected = 16, cg_total_completed = 15, cg_stops = [],
      waiting = [0, 0], pcs = [Idle, Idle]\<rparr>"
  using assms
proof (induction sched)
  case Nil
  then show ?case by simp
next
  case (Cons r sched)
  have "r = 0 \<or> r = 1" using Cons.prems by auto
  then have "micro r
     \<lparr>cg_total_expected = 16, cg_total_completed = 15, cg_stops = [],
      waiting = [0, 0], pcs = [Idle, Idle]\<rparr> =
     \<lparr>cg_total_expected = 16, cg_total_completed = 15, cg_stops = [],
      waiting = [0, 0], pcs = [Idle, Idle]\<rparr>"
    by (auto simp: micro_def)
  then show ?case using Cons by simp
qed

text \<open>
  C3 at the failing input. Scenario A on its two reactors: every read has been accepted
  and every completion is successful. The first two completions arrive on distinct reactors
  and both reactors load the counter before either stores it; the 14 remaining callbacks
  then run one at a time. All 16 completions have been delivered, every callback has
  returned, \<^verbatim>\<open>g_total_completed\<close> is 15 and not 16, and
  \<^verbatim>\<open>spdk_app_stop\<close> has not been called; nothing either reactor can do
  changes that state, so the program polls forever.
\<close>

theorem scenario_A_lost_update_never_stops:
  "fold micro ([0, 1, 0, 1, 0, 1] @ replicate 21 0 @ replicate 21 1) scenario_A_conc =
     \<lparr>cg_total_expected = 16, cg_total_completed = 15, cg_stops = [],
      waiting = [0, 0], pcs = [Idle, Idle]\<rparr> \<and>
   micro 0 \<lparr>cg_total_expected = 16, cg_total_completed = 15, cg_stops = [],
      waiting = [0, 0], pcs = [Idle, Idle]\<rparr> =
     \<lparr>cg_total_expected = 16, cg_total_completed = 15, cg_stops = [],
      waiting = [0, 0], pcs = [Idle, Idle]\<rparr> \<and>
   micro 1 \<lparr>cg_total_expected = 16, cg_total_completed = 15, cg_stops = [],
      waiting = [0, 0], pcs = [Idle, Idle]\<rparr> =
     \<lparr>cg_total_expected = 16, cg_total_completed = 15, cg_stops = [],
      waiting = [0, 0], pcs = [Idle, Idle]\<rparr>"
proof -
  have s1: "micro 0
     \<lparr>cg_total_expected = 16, cg_total_completed = 0, cg_stops = [],
      waiting = [8, 8], pcs = [Idle, Idle]\<rparr> =
     \<lparr>cg_total_expected = 16, cg_total_completed = 0, cg_stops = [],
      waiting = [7, 8], pcs = [Loaded 0, Idle]\<rparr>"
    by (simp add: micro_def)
  have s2: "micro 1
     \<lparr>cg_total_expected = 16, cg_total_completed = 0, cg_stops = [],
      waiting = [7, 8], pcs = [Loaded 0, Idle]\<rparr> =
     \<lparr>cg_total_expected = 16, cg_total_completed = 0, cg_stops = [],
      waiting = [7, 7], pcs = [Loaded 0, Loaded 0]\<rparr>"
    by (simp add: micro_def)
  have s3: "micro 0
     \<lparr>cg_total_expected = 16, cg_total_completed = 0, cg_stops = [],
      waiting = [7, 7], pcs = [Loaded 0, Loaded 0]\<rparr> =
     \<lparr>cg_total_expected = 16, cg_total_completed = 1, cg_stops = [],
      waiting = [7, 7], pcs = [Stored, Loaded 0]\<rparr>"
    by (simp add: micro_def u64_def)
  have s4: "micro 1
     \<lparr>cg_total_expected = 16, cg_total_completed = 1, cg_stops = [],
      waiting = [7, 7], pcs = [Stored, Loaded 0]\<rparr> =
     \<lparr>cg_total_expected = 16, cg_total_completed = 1, cg_stops = [],
      waiting = [7, 7], pcs = [Stored, Stored]\<rparr>"
    by (simp add: micro_def u64_def)
  have s5: "micro 0
     \<lparr>cg_total_expected = 16, cg_total_completed = 1, cg_stops = [],
      waiting = [7, 7], pcs = [Stored, Stored]\<rparr> =
     \<lparr>cg_total_expected = 16, cg_total_completed = 1, cg_stops = [],
      waiting = [7, 7], pcs = [Idle, Stored]\<rparr>"
    by (simp add: micro_def)
  have s6: "micro 1
     \<lparr>cg_total_expected = 16, cg_total_completed = 1, cg_stops = [],
      waiting = [7, 7], pcs = [Idle, Stored]\<rparr> =
     \<lparr>cg_total_expected = 16, cg_total_completed = 1, cg_stops = [],
      waiting = [7, 7], pcs = [Idle, Idle]\<rparr>"
    by (simp add: micro_def)
  have t: "fold micro [0, 1, 0, 1, 0, 1]
     \<lparr>cg_total_expected = 16, cg_total_completed = 0, cg_stops = [],
      waiting = [8, 8], pcs = [Idle, Idle]\<rparr> =
     \<lparr>cg_total_expected = 16, cg_total_completed = 1, cg_stops = [],
      waiting = [7, 7], pcs = [Idle, Idle]\<rparr>"
    by (simp add: s1 s2 s3 s4 s5 s6 del: One_nat_def)
  have a: "fold micro (replicate 21 0)
     \<lparr>cg_total_expected = 16, cg_total_completed = 1, cg_stops = [],
      waiting = [7, 7], pcs = [Idle, Idle]\<rparr> =
     \<lparr>cg_total_expected = 16, cg_total_completed = 8, cg_stops = [],
      waiting = [0, 7], pcs = [Idle, Idle]\<rparr>"
    using serial_run [of 0 "\<lparr>cg_total_expected = 16, cg_total_completed = 1, cg_stops = [], waiting = [7, 7], pcs = [Idle, Idle]\<rparr>" 7] by simp
  have b: "fold micro (replicate 21 1)
     \<lparr>cg_total_expected = 16, cg_total_completed = 8, cg_stops = [],
      waiting = [0, 7], pcs = [Idle, Idle]\<rparr> =
     \<lparr>cg_total_expected = 16, cg_total_completed = 15, cg_stops = [],
      waiting = [0, 0], pcs = [Idle, Idle]\<rparr>"
    using serial_run [of 1 "\<lparr>cg_total_expected = 16, cg_total_completed = 8, cg_stops = [], waiting = [0, 7], pcs = [Idle, Idle]\<rparr>" 7] by simp
  have run: "fold micro ([0, 1, 0, 1, 0, 1] @ replicate 21 0 @ replicate 21 1) scenario_A_conc =
     \<lparr>cg_total_expected = 16, cg_total_completed = 15, cg_stops = [],
      waiting = [0, 0], pcs = [Idle, Idle]\<rparr>"
    unfolding scenario_A_conc_value fold_append o_apply t a b ..
  have f0: "micro 0 \<lparr>cg_total_expected = 16, cg_total_completed = 15, cg_stops = [],
      waiting = [0, 0], pcs = [Idle, Idle]\<rparr> =
     \<lparr>cg_total_expected = 16, cg_total_completed = 15, cg_stops = [],
      waiting = [0, 0], pcs = [Idle, Idle]\<rparr>"
    by (simp add: micro_def)
  have f1: "micro 1 \<lparr>cg_total_expected = 16, cg_total_completed = 15, cg_stops = [],
      waiting = [0, 0], pcs = [Idle, Idle]\<rparr> =
     \<lparr>cg_total_expected = 16, cg_total_completed = 15, cg_stops = [],
      waiting = [0, 0], pcs = [Idle, Idle]\<rparr>"
    by (simp add: micro_def)
  from run f0 f1 show ?thesis by blast
qed

subsection \<open>The shutdown trigger when callbacks run one at a time\<close>

lemma io_complete_stops:
  "stops (io_complete ok k s) =
     stops s @ (if u64 (g_total_completed s + 1) = g_total_expected s then [0] else [])"
  by (simp add: io_complete_def Let_def)

lemma fold_io_complete:
  "g_total_completed s + length xs < 2 ^ 64 \<Longrightarrow>
   g_total_completed (fold (\<lambda>(ok, k). io_complete ok k) xs s) = g_total_completed s + length xs \<and>
   stops (fold (\<lambda>(ok, k). io_complete ok k) xs s) =
     stops s @ (if g_total_completed s < g_total_expected s \<and>
                   g_total_expected s \<le> g_total_completed s + length xs then [0] else []) \<and>
   g_total_expected (fold (\<lambda>(ok, k). io_complete ok k) xs s) = g_total_expected s"
proof (induction xs arbitrary: s)
  case Nil
  then show ?case by auto
next
  case (Cons x xs)
  obtain ok k where x: "x = (ok, k)" by (cases x)
  let ?s1 = "io_complete ok k s"
  have c1: "g_total_completed ?s1 = g_total_completed s + 1"
    using Cons.prems by (simp add: io_complete_fields u64_small)
  have st1: "stops ?s1 =
     stops s @ (if g_total_completed s + 1 = g_total_expected s then [0] else [])"
    using Cons.prems by (simp add: io_complete_stops u64_small)
  have e1: "g_total_expected ?s1 = g_total_expected s"
    by (simp add: io_complete_fields)
  have "g_total_completed ?s1 + length xs < 2 ^ 64" using Cons.prems c1 by simp
  from Cons.IH [OF this] show ?case
    unfolding x c1 st1 e1
    using trigger_split [of "g_total_completed s" "g_total_expected s" "length xs"]
    by simp
qed

text \<open>
  C2, amended. The callback has no latch: it calls \<^verbatim>\<open>spdk_app_stop(0)\<close>
  whenever the counter it has just incremented equals the expected total. When
  callbacks run one at a time, starting from a completed count of 0 with a positive
  expected total, the trigger has been invoked exactly once after any number of
  completions that reaches the expected total (below \<open>2 ^ 64\<close>), and not at all after
  fewer. This holds for the callback of \<^verbatim>\<open>bdev_multicore_multi_threads.c\<close> and
  for that of \<^verbatim>\<open>bdev_reactor_multi_threads.c\<close>.
\<close>

theorem serial_completions_trigger_once:
  assumes "length fl < 2 ^ 64" and "length xs < 2 ^ 64"
  shows "(mc_total_completed s = 0 \<and> mc_stops s = [] \<and> 0 < mc_total_expected s \<longrightarrow>
            mc_total_completed (fold mc_io_complete fl s) = length fl \<and>
            mc_stops (fold mc_io_complete fl s) =
              (if mc_total_expected s \<le> length fl then [0] else [])) \<and>
         (g_total_completed r = 0 \<and> stops r = [] \<and> 0 < g_total_expected r \<longrightarrow>
            g_total_completed (fold (\<lambda>(ok, k). io_complete ok k) xs r) = length xs \<and>
            stops (fold (\<lambda>(ok, k). io_complete ok k) xs r) =
              (if g_total_expected r \<le> length xs then [0] else []))"
proof (intro conjI impI)
  assume a: "mc_total_completed s = 0 \<and> mc_stops s = [] \<and> 0 < mc_total_expected s"
  then have "mc_total_completed s + length fl < 2 ^ 64" using assms(1) by simp
  from fold_mc_io_complete [OF this] a
  show "mc_total_completed (fold mc_io_complete fl s) = length fl"
    and "mc_stops (fold mc_io_complete fl s) =
              (if mc_total_expected s \<le> length fl then [0] else [])"
    by simp_all
next
  assume a: "g_total_completed r = 0 \<and> stops r = [] \<and> 0 < g_total_expected r"
  then have "g_total_completed r + length xs < 2 ^ 64" using assms(2) by simp
  from fold_io_complete [OF this] a
  show "g_total_completed (fold (\<lambda>(ok, k). io_complete ok k) xs r) = length xs"
    and "stops (fold (\<lambda>(ok, k). io_complete ok k) xs r) =
              (if g_total_expected r \<le> length xs then [0] else [])"
    by simp_all
qed

theorem serial_completions_trigger_once_witness:
  "mc_stops (fold mc_io_complete (replicate 15 True) scenario_A_submitted) = [] \<and>
   mc_stops (fold mc_io_complete (replicate 16 True) scenario_A_submitted) = [0] \<and>
   mc_stops (fold mc_io_complete (replicate 17 True) scenario_A_submitted) = [0] \<and>
   stops (fold (\<lambda>(ok, k). io_complete ok k)
            (replicate 24 (True, \<lparr>task_addr = 0, tctx = 0, buf = 0\<rparr>)) run_started) = [0]"
proof -
  have m: "mc_total_completed scenario_A_submitted = 0 \<and> mc_stops scenario_A_submitted = [] \<and>
     0 < mc_total_expected scenario_A_submitted"
    by (simp add: scenario_A_submitted_fields)
  have r: "g_total_completed run_started = 0 \<and> stops run_started = [] \<and>
     0 < g_total_expected run_started" "g_total_expected run_started = 24"
    by (simp_all add: run_started_def app_start_def reactor_init_def THREADS_PER_REACTOR_def
        IO_PER_THREAD_def)
  have l: "length (replicate n True) < 2 ^ 64" if "n \<le> 24" for n
    using that by simp
  have l': "length (replicate 24 (True, \<lparr>task_addr = 0, tctx = 0, buf = 0\<rparr>)) < 2 ^ 64"
    by simp
  from serial_completions_trigger_once [OF l l', of 15 scenario_A_submitted run_started]
    serial_completions_trigger_once [OF l l', of 16 scenario_A_submitted run_started]
    serial_completions_trigger_once [OF l l', of 17 scenario_A_submitted run_started]
    m r
  show ?thesis by (simp add: scenario_A_submitted_fields)
qed

section \<open>Verification: release order of bdev\_nvme.c\<close>

text \<open>
  C7, amended. No program has a close operation that can refuse. When
  \<^verbatim>\<open>bdev_nvme.c\<close> returns after releasing anything, it returns 0, no request
  is outstanding, and the trace ends with the report, the release of the I/O channel and
  then the close of the descriptor, each made once.
\<close>

theorem bdev_nvme_release_order:
  assumes "main env = Some (rc, s)"
    and "PutIoChannel \<in> set (trace s) \<or> BdevClose \<in> set (trace s)"
  shows "rc = 0 \<and> queued s = [] \<and> io_completed (ctx s) = io_submitted (ctx s) \<and>
         (\<exists>pre. trace s = pre @ [Report (io_submitted (ctx s)) (io_completed (ctx s)),
                                  PutIoChannel, BdevClose] \<and>
                PutIoChannel \<notin> set pre \<and> BdevClose \<notin> set pre)"
proof -
  from assms obtain s' where w: "wait_loop env (at_wait_loop env) = Some s'"
    and s: "s = release s'" and rc: "rc = 0"
    by (auto simp: main_def bdev_app_init_def split: if_splits option.splits)
  from wait_loop_acct [OF w] show ?thesis
    by (auto simp: s rc release_def bdev_acct_def)
qed

theorem bdev_nvme_release_order_witness:
  "\<exists>s. main completes_at_third_poll = Some (0, s) \<and> polls s = 3 \<and>
       PutIoChannel \<in> set (trace s) \<and> queued s = [] \<and>
       io_completed (ctx s) = io_submitted (ctx s)"
  using main_third_poll bdev_nvme_release_order [of completes_at_third_poll 0] by blast

section \<open>Verification: bdev\_nvme\_multi.c\<close>

lemma submit_io_loop_counts:
  assumes "i \<le> IO_PER_REACTOR" and "\<forall>j < i. ok j"
  shows "io_submitted (rctx (submit_io_loop ok i (multi_init n))) = min n i \<and>
         io_completed (rctx (submit_io_loop ok i (multi_init n))) = 0 \<and>
         length (dev_queue (dev (submit_io_loop ok i (multi_init n)))) = min n i \<and>
         length (dev_calls (dev (submit_io_loop ok i (multi_init n)))) = i \<and>
         depth (dev (submit_io_loop ok i (multi_init n))) = n \<and>
         length (live_bufs (rmem (submit_io_loop ok i (multi_init n)))) = min n i \<and>
         length (freed_bufs (rmem (submit_io_loop ok i (multi_init n)))) = i - min n i \<and>
         length (rerrs (submit_io_loop ok i (multi_init n))) = i - min n i \<and>
         next_buf (rmem (submit_io_loop ok i (multi_init n))) = i \<and>
         dev_calls (dev (submit_io_loop ok i (multi_init n))) =
           map (\<lambda>j. (j, j * TEST_IO_SIZE, TEST_IO_SIZE)) [0..<i] \<and>
         dev_queue (dev (submit_io_loop ok i (multi_init n))) = [0..<min n i] \<and>
         rerrs (submit_io_loop ok i (multi_init n)) =
           replicate (i - min n i) ''Failed to submit bdev read''"
  using assms
proof (induction i)
  case 0
  then show ?case by (simp add: multi_init_def heap_init_def)
next
  case (Suc i)
  let ?s1 = "submit_io_loop ok i (multi_init n)"
  from Suc have ih: "io_submitted (rctx ?s1) = min n i" "io_completed (rctx ?s1) = 0"
    "length (dev_queue (dev ?s1)) = min n i" "length (dev_calls (dev ?s1)) = i"
    "depth (dev ?s1) = n" "length (live_bufs (rmem ?s1)) = min n i"
    "length (freed_bufs (rmem ?s1)) = i - min n i"
    "length (rerrs ?s1) = i - min n i" "next_buf (rmem ?s1) = i"
    "dev_calls (dev ?s1) = map (\<lambda>j. (j, j * TEST_IO_SIZE, TEST_IO_SIZE)) [0..<i]"
    "dev_queue (dev ?s1) = [0..<min n i]"
    "rerrs ?s1 = replicate (i - min n i) ''Failed to submit bdev read''"
    by simp_all
  have ok: "ok i" using Suc.prems by simp
  have small: "min n i + 1 < (2::nat) ^ 64"
  proof -
    have "min n i + 1 \<le> 5" using Suc.prems(1) by (simp add: IO_PER_REACTOR_def)
    then show ?thesis by simp
  qed
  show ?case
  proof (cases "i < n")
    case True
    then show ?thesis
      using ih ok small
      by (simp add: Let_def spdk_zmalloc_def spdk_bdev_read_def u64_small)
  next
    case False
    then have "Suc i - n = Suc (i - n)" by simp
    then show ?thesis
      using ih ok False
      by (simp add: Let_def spdk_zmalloc_def spdk_bdev_read_def spdk_free_def ENOMEM_def
          replicate_append_same)
  qed
qed

text \<open>
  C6, as stated, fails. Against a device of queue depth 3, \<^verbatim>\<open>submit_io\<close>
  makes its fourth read call before any poll: the call is in the device's log, the
  device refuses it, and the only report is a message on stderr. The submitted counter
  is 3.
\<close>

theorem fourth_read_reaches_device:
  "io_submitted (rctx depth3_run) = 3 \<and>
   dev_calls (dev depth3_run) =
     [(0, 0, 4096), (1, 4096, 4096), (2, 8192, 4096), (3, 12288, 4096)] \<and>
   dev_queue (dev depth3_run) = [0, 1, 2] \<and>
   rerrs depth3_run = [''Failed to submit bdev read'']"
proof -
  have a: "IO_PER_REACTOR \<le> IO_PER_REACTOR" "\<forall>j < IO_PER_REACTOR. (\<lambda>i. True) j"
    by simp_all
  have u: "[0..<4] = [0, 1, 2, 3]" "[0..<3] = [0, 1, 2]"
    by (simp_all add: upt_rec)
  from submit_io_loop_counts [OF a, of 3] show ?thesis
    unfolding depth3_run_def submit_io_def
    by (simp add: IO_PER_REACTOR_def TEST_IO_SIZE_def u)
qed

text \<open>
  C6, amended. \<^verbatim>\<open>submit_io\<close> keeps no count of outstanding requests and has
  no queue depth of its own: every request whose buffer is allocated is handed to the
  device layer. Against a device that accepts \<open>n\<close> queued reads and refuses further
  ones, after the first \<open>i\<close> calls, with no poll in between, all \<open>i\<close> calls have
  reached the device, the submitted counter is the smaller of \<open>n\<close> and \<open>i\<close>, and
  the buffer of each refused read has been freed.
\<close>

theorem submit_io_on_depth_limited_device:
  assumes "i \<le> IO_PER_REACTOR" and "\<forall>j < i. ok j"
  shows "io_submitted (rctx (submit_io_loop ok i (multi_init n))) = min n i \<and>
         length (dev_calls (dev (submit_io_loop ok i (multi_init n)))) = i \<and>
         length (dev_queue (dev (submit_io_loop ok i (multi_init n)))) = min n i \<and>
         length (live_bufs (rmem (submit_io_loop ok i (multi_init n)))) = min n i \<and>
         length (freed_bufs (rmem (submit_io_loop ok i (multi_init n)))) = i - min n i \<and>
         length (rerrs (submit_io_loop ok i (multi_init n))) = i - min n i"
  using submit_io_loop_counts [OF assms, of n] by simp

theorem submit_io_on_depth_limited_device_witness:
  "4 \<le> IO_PER_REACTOR \<and>
   io_submitted (rctx (submit_io_loop (\<lambda>i. True) 4 (multi_init 3))) = 3 \<and>
   length (dev_calls (dev (submit_io_loop (\<lambda>i. True) 4 (multi_init 3)))) = 4 \<and>
   length (freed_bufs (rmem (submit_io_loop (\<lambda>i. True) 4 (multi_init 3)))) = 1"
proof -
  have a: "4 \<le> IO_PER_REACTOR" by (simp add: IO_PER_REACTOR_def)
  from submit_io_on_depth_limited_device [OF a, of "\<lambda>i. True" 3] a
  show ?thesis by simp
qed

end
